theory Spec2Isabelle
  imports Main "HOL-Library.Word" "HOL-Library.Multiset"
begin

section \<open>Typed arrays and the DataView\<close>

text \<open>
  A JavaScript \<^verbatim>\<open>Uint8Array\<close> is a window on an \<^verbatim>\<open>ArrayBuffer\<close>: the buffer
  holds the bytes, \<^verbatim>\<open>byteOffset\<close> and \<^verbatim>\<open>byteLength\<close> say which of them the array
  shows. \<^verbatim>\<open>new Uint8Array(n)\<close>, \<^verbatim>\<open>new Uint8Array(buffer)\<close> and
  \<^verbatim>\<open>new Uint8Array(typedArray)\<close> give an array on a buffer of its own, from offset 0
  (\<open>fromBytes\<close>); \<^verbatim>\<open>subarray\<close> gives a new window on the same buffer.
  \<^verbatim>\<open>new DataView(buffer)\<close> reads and writes the whole buffer, and raises a
  \<^verbatim>\<open>RangeError\<close> outside it.
\<close>

type_synonym byte = "8 word"

datatype error = RangeError | BaseError

record Uint8Array =
  buffer :: "byte list"
  byteOffset :: nat
  byteLength :: nat

definition fromBytes :: "byte list \<Rightarrow> Uint8Array" where
  "fromBytes bs = \<lparr>buffer = bs, byteOffset = 0, byteLength = length bs\<rparr>"

definition elements :: "Uint8Array \<Rightarrow> byte list" where
  "elements u = take (byteLength u) (drop (byteOffset u) (buffer u))"

definition subarray :: "Uint8Array \<Rightarrow> nat \<Rightarrow> nat \<Rightarrow> Uint8Array" where
  "subarray u begin end =
     (let b = min begin (byteLength u); e = min end (byteLength u)
      in \<lparr>buffer = buffer u, byteOffset = byteOffset u + b, byteLength = e - b\<rparr>)"

definition getUint16 :: "byte list \<Rightarrow> nat \<Rightarrow> error + nat" where
  "getUint16 buf offset =
     (if offset + 2 \<le> length buf
      then Inr (unat (buf ! offset) + 256 * unat (buf ! (offset + 1)))
      else Inl RangeError)"

definition getUint8 :: "byte list \<Rightarrow> nat \<Rightarrow> error + nat" where
  "getUint8 buf offset =
     (if offset + 1 \<le> length buf then Inr (unat (buf ! offset)) else Inl RangeError)"

definition setUint16 :: "byte list \<Rightarrow> nat \<Rightarrow> nat \<Rightarrow> error + byte list" where
  "setUint16 buf offset v =
     (if offset + 2 \<le> length buf
      then Inr (buf[offset := of_nat (v mod 256), offset + 1 := of_nat (v div 256 mod 256)])
      else Inl RangeError)"

definition setUint8 :: "byte list \<Rightarrow> nat \<Rightarrow> nat \<Rightarrow> error + byte list" where
  "setUint8 buf offset v =
     (if offset + 1 \<le> length buf then Inr (buf[offset := of_nat (v mod 256)])
      else Inl RangeError)"

section \<open>The diff serializer (main.js)\<close>

definition FRAME_WIDTH :: nat where "FRAME_WIDTH = 160"
definition FRAME_HEIGHT :: nat where "FRAME_HEIGHT = 160"
definition TOTAL_PIXELS :: nat where "TOTAL_PIXELS = FRAME_WIDTH * FRAME_HEIGHT"

record diff =
  index :: nat
  "value" :: nat

text \<open>
  \<^verbatim>\<open>serializeDiff\<close>: a zeroed buffer of three bytes per record, filled through a
  DataView from offset 0; the result is a \<^verbatim>\<open>Uint8Array\<close> on that buffer.
\<close>

fun serializeDiff_loop :: "diff list \<Rightarrow> nat \<Rightarrow> byte list \<Rightarrow> error + byte list" where
  "serializeDiff_loop [] offset view = Inr view"
| "serializeDiff_loop (d # rest) offset view =
     (case setUint16 view offset (index d) of
        Inl e \<Rightarrow> Inl e
      | Inr view1 \<Rightarrow>
          (case setUint8 view1 (offset + 2) (value d) of
             Inl e \<Rightarrow> Inl e
           | Inr view2 \<Rightarrow> serializeDiff_loop rest (offset + 3) view2))"

definition serializeDiff :: "diff list \<Rightarrow> error + Uint8Array" where
  "serializeDiff diffArray =
     (case serializeDiff_loop diffArray 0 (replicate (length diffArray * 3) 0) of
        Inl e \<Rightarrow> Inl e
      | Inr buf \<Rightarrow> Inr (fromBytes buf))"

text \<open>
  \<^verbatim>\<open>deserializeDiff\<close>: the DataView is made from \<^verbatim>\<open>uint8Array.buffer\<close> alone, so it
  starts at byte 0 of the underlying buffer whatever the array's \<^verbatim>\<open>byteOffset\<close> is;
  the loop runs while \<^verbatim>\<open>offset < uint8Array.byteLength\<close>.
\<close>

function deserializeDiff_loop :: "Uint8Array \<Rightarrow> nat \<Rightarrow> diff list \<Rightarrow> error + diff list" where
  "deserializeDiff_loop uint8Array offset diffArray =
     (if offset < byteLength uint8Array then
        (case getUint16 (buffer uint8Array) offset of
           Inl e \<Rightarrow> Inl e
         | Inr i \<Rightarrow>
             (case getUint8 (buffer uint8Array) (offset + 2) of
                Inl e \<Rightarrow> Inl e
              | Inr v \<Rightarrow>
                  deserializeDiff_loop uint8Array (offset + 3)
                    (diffArray @ [\<lparr>index = i, value = v\<rparr>])))
      else Inr diffArray)"
  by pat_completeness auto
termination
  by (relation "measure (\<lambda>(u, offset, acc). byteLength u - offset)") auto

declare deserializeDiff_loop.simps [simp del]

definition deserializeDiff :: "Uint8Array \<Rightarrow> error + diff list" where
  "deserializeDiff uint8Array = deserializeDiff_loop uint8Array 0 []"

text \<open>The records that a run of bytes encodes, three bytes each, for stating results.\<close>

fun decodeRecords :: "byte list \<Rightarrow> diff list" where
  "decodeRecords (a # b # c # rest) =
     \<lparr>index = unat a + 256 * unat b, value = unat c\<rparr> # decodeRecords rest"
| "decodeRecords _ = []"

definition encodeRecord :: "diff \<Rightarrow> byte list" where
  "encodeRecord d =
     [of_nat (index d mod 256), of_nat (index d div 256 mod 256), of_nat (value d mod 256)]"

text \<open>
  \<^verbatim>\<open>diffFrames\<close> walks the RGBA data of the current frame four bytes at a time and
  compares the first channel with the previous frame's. A read past the end of the
  previous frame's data is \<^verbatim>\<open>undefined\<close>; the subtraction is then \<^verbatim>\<open>NaN\<close> and the
  comparison false.
\<close>

function diffFrames_loop :: "byte list \<Rightarrow> byte list \<Rightarrow> nat \<Rightarrow> diff list \<Rightarrow> diff list" where
  "diffFrames_loop currentData previousData i diffDataArray =
     (if i < length currentData then
        diffFrames_loop currentData previousData (i + 4)
          (if i < length previousData
              \<and> \<bar>int (unat (currentData ! i)) - int (unat (previousData ! i))\<bar> > 5
           then diffDataArray @ [\<lparr>index = i div 4, value = unat (currentData ! i)\<rparr>]
           else diffDataArray)
      else diffDataArray)"
  by pat_completeness auto
termination
  by (relation "measure (\<lambda>(c, p, i, acc). length c - i)") auto

declare diffFrames_loop.simps [simp del]

definition diffFrames :: "byte list \<Rightarrow> byte list \<Rightarrow> diff list" where
  "diffFrames currentData previousData = diffFrames_loop currentData previousData 0 []"

text \<open>
  The test of \<^verbatim>\<open>diffFrames\<close> on pixel \<open>i\<close> of two frames of the same size: the
  grayscale value of a pixel is the first of its four bytes.
\<close>

definition pixelChanged :: "byte list \<Rightarrow> byte list \<Rightarrow> nat \<Rightarrow> bool" where
  "pixelChanged currentData previousData i =
     (\<bar>int (unat (currentData ! (4 * i))) - int (unat (previousData ! (4 * i)))\<bar> > 5)"

text \<open>
  Applying a delta: each reconstruction path copies the previous raster
  (\<^verbatim>\<open>new Uint8Array(previous)\<close>) and then runs the same loop over the records,
  \<^verbatim>\<open>if (d.index < pixels.length) pixels[d.index] = d.value\<close>. The writes go to the
  copy only, so rasters are modelled as values. A store into a \<^verbatim>\<open>Uint8Array\<close>
  keeps the low eight bits.
\<close>

fun applyDiffs :: "diff list \<Rightarrow> byte list \<Rightarrow> byte list" where
  "applyDiffs [] pixels = pixels"
| "applyDiffs (d # rest) pixels =
     applyDiffs rest
       (if index d < length pixels then pixels[index d := of_nat (value d)] else pixels)"

section \<open>Library functions the client calls\<close>

text \<open>
  \<^verbatim>\<open>hexToBytes\<close> (viem) drops the first two characters of the string, pads an odd
  number of digits with a leading zero and reads two hexadecimal digits per byte; a
  character that is no hexadecimal digit raises. \<^verbatim>\<open>pako.inflate\<close> is not modelled:
  every definition that decompresses takes it as the parameter \<open>inflate\<close>, with
  \<open>None\<close> for an input it raises on.
\<close>

definition charCodeToBase16 :: "char \<Rightarrow> nat option" where
  "charCodeToBase16 c =
     (let n = of_char c :: nat in
      if 48 \<le> n \<and> n \<le> 57 then Some (n - 48)
      else if 65 \<le> n \<and> n \<le> 70 then Some (n - 55)
      else if 97 \<le> n \<and> n \<le> 102 then Some (n - 87)
      else None)"

fun hexPairs :: "string \<Rightarrow> error + byte list" where
  "hexPairs (l # r # rest) =
     (case (charCodeToBase16 l, charCodeToBase16 r) of
        (Some nibbleLeft, Some nibbleRight) \<Rightarrow>
          (case hexPairs rest of
             Inl e \<Rightarrow> Inl e
           | Inr bytes \<Rightarrow> Inr (of_nat (nibbleLeft * 16 + nibbleRight) # bytes))
      | _ \<Rightarrow> Inl BaseError)"
| "hexPairs [c] = Inl BaseError"
| "hexPairs [] = Inr []"

definition hexToBytes :: "string \<Rightarrow> error + byte list" where
  "hexToBytes hex =
     (let hexString = drop 2 hex
      in hexPairs (if odd (length hexString) then CHR ''0'' # hexString else hexString))"

section \<open>Grid playback of a remote clip (main.js)\<close>

record ClipData =
  firstFrame :: string
  compressedDiffs :: string
  clipDiffLengths :: "nat list"
  clipFid :: nat
  clipTimestamp :: nat

record GridPlayerData =
  sender :: string
  fid :: nat
  timestamp :: nat
  firstFrameCompressed :: string
  allDiffsCompressedBlob :: string
  diffLengths :: "nat list"
  totalFrames :: nat
  currentFrameIndex :: nat
  reconstructedIBaseFrameData :: "byte list option"
  decompressedDiffsBlob :: "byte list option"
  currentPFramePixelData :: "byte list option"

definition newGridPlayerData :: "ClipData \<Rightarrow> string \<Rightarrow> nat \<Rightarrow> nat \<Rightarrow> GridPlayerData" where
  "newGridPlayerData contractData senderAddress f ts =
     \<lparr>sender = senderAddress, fid = f, timestamp = ts,
      firstFrameCompressed = firstFrame contractData,
      allDiffsCompressedBlob = compressedDiffs contractData,
      diffLengths = clipDiffLengths contractData,
      totalFrames = 1 + length (clipDiffLengths contractData),
      currentFrameIndex = 0,
      reconstructedIBaseFrameData = None,
      decompressedDiffsBlob = None,
      currentPFramePixelData = None\<rparr>"

definition inflateHex :: "(byte list \<Rightarrow> byte list option) \<Rightarrow> string \<Rightarrow> byte list option" where
  "inflateHex inflate hex = (case hexToBytes hex of Inl e \<Rightarrow> None | Inr bytes \<Rightarrow> inflate bytes)"

definition prepareForPlayback ::
  "(byte list \<Rightarrow> byte list option) \<Rightarrow> GridPlayerData \<Rightarrow> GridPlayerData" where
  "prepareForPlayback inflate this =
     (let this1 =
        (if firstFrameCompressed this \<noteq> [] \<and> reconstructedIBaseFrameData this = None
         then this\<lparr>reconstructedIBaseFrameData := inflateHex inflate (firstFrameCompressed this)\<rparr>
         else this)
      in if allDiffsCompressedBlob this1 \<noteq> [] \<and> decompressedDiffsBlob this1 = None
            \<and> diffLengths this1 \<noteq> []
         then this1\<lparr>decompressedDiffsBlob := inflateHex inflate (allDiffsCompressedBlob this1)\<rparr>
         else this1)"

text \<open>
  What a render call leaves on the canvas: the raster it drew, an error label, nothing
  (an early \<^verbatim>\<open>return\<close>), or \<open>Escaped\<close> when the call ends by an exception. In
  \<^verbatim>\<open>renderGridVideoFrame\<close> the \<^verbatim>\<open>catch\<close> block reads \<^verbatim>\<open>gridWidth\<close>, which is
  declared inside the \<^verbatim>\<open>try\<close> block, so an exception caught there leaves the function
  as a \<^verbatim>\<open>ReferenceError\<close>.
\<close>

datatype drawn = Image "byte list" | Label string | NoDraw | Escaped

text \<open>
  The slice of the decompressed blob for one delta: the lengths before it are summed
  for the start, and \<^verbatim>\<open>subarray\<close> makes the window.
\<close>

definition sliceDiff :: "byte list \<Rightarrow> nat list \<Rightarrow> nat \<Rightarrow> Uint8Array" where
  "sliceDiff blob lengths diffIndexInArray =
     (let offset = sum_list (take diffIndexInArray lengths);
          currentDiffLength = lengths ! diffIndexInArray
      in subarray (fromBytes blob) offset (offset + currentDiffLength))"

definition renderFrame :: "GridPlayerData \<Rightarrow> GridPlayerData \<times> drawn" where
  "renderFrame player =
     (if currentFrameIndex player = 0 then
        (case reconstructedIBaseFrameData player of
           None \<Rightarrow> (player, NoDraw)
         | Some base \<Rightarrow> (player\<lparr>currentPFramePixelData := Some base\<rparr>, Image base))
      else
        (case decompressedDiffsBlob player of
           None \<Rightarrow> (player, NoDraw)
         | Some blob \<Rightarrow>
             if currentFrameIndex player > length (diffLengths player) then (player, NoDraw)
             else
               (case (case currentPFramePixelData player of
                        None \<Rightarrow> reconstructedIBaseFrameData player
                      | Some p \<Rightarrow> Some p) of
                  None \<Rightarrow> (player, NoDraw)
                | Some previous \<Rightarrow>
                    (case deserializeDiff
                            (sliceDiff blob (diffLengths player) (currentFrameIndex player - 1)) of
                       Inl e \<Rightarrow> (player\<lparr>currentPFramePixelData := Some previous\<rparr>, Escaped)
                     | Inr diffArray \<Rightarrow>
                         (player\<lparr>currentPFramePixelData := Some (applyDiffs diffArray previous)\<rparr>,
                          Image (applyDiffs diffArray previous))))))"

definition renderGridVideoFrame ::
  "(byte list \<Rightarrow> byte list option) \<Rightarrow> GridPlayerData \<Rightarrow> GridPlayerData \<times> drawn" where
  "renderGridVideoFrame inflate player =
     (if totalFrames player = 0 then (player, NoDraw)
      else
        let player1 =
          (if reconstructedIBaseFrameData player = None \<and> firstFrameCompressed player \<noteq> []
           then prepareForPlayback inflate player else player)
        in if reconstructedIBaseFrameData player = None \<and> firstFrameCompressed player \<noteq> []
              \<and> reconstructedIBaseFrameData player1 = None
           then (player1, Label ''I-ERR'')
           else
             let player2 =
               (if diffLengths player1 \<noteq> [] \<and> decompressedDiffsBlob player1 = None
                   \<and> allDiffsCompressedBlob player1 \<noteq> []
                then prepareForPlayback inflate player1 else player1)
             in if diffLengths player1 \<noteq> [] \<and> decompressedDiffsBlob player1 = None
                   \<and> allDiffsCompressedBlob player1 \<noteq> [] \<and> decompressedDiffsBlob player2 = None
                then (player2, Label ''P-ERR'')
                else renderFrame player2)"

text \<open>
  One due tick of \<^verbatim>\<open>mainAnimationLoop\<close> for a clip cell: render, then advance the
  index modulo the frame count. An exception that leaves the render call also leaves the
  loop before the index is advanced.
\<close>

definition gridTick ::
  "(byte list \<Rightarrow> byte list option) \<Rightarrow> GridPlayerData \<Rightarrow> GridPlayerData" where
  "gridTick inflate player =
     (case renderGridVideoFrame inflate player of
        (player', Escaped) \<Rightarrow> player'
      | (player', d) \<Rightarrow>
          player'\<lparr>currentFrameIndex := (currentFrameIndex player' + 1) mod totalFrames player'\<rparr>)"

section \<open>Filling the grid (main.js, loadAndDisplayGridVideos)\<close>

datatype GridSlot = NoisePlayer | GridPlayer GridPlayerData

text \<open>
  The validity test of a clip's \<^verbatim>\<open>firstFrame\<close>, with JavaScript's short-circuit
  \<^verbatim>\<open>||\<close>: \<^verbatim>\<open>hexToBytes\<close> runs only when the string is neither empty nor \<^verbatim>\<open>'0x'\<close>,
  and may raise.
\<close>

definition noValidFirstFrame :: "string \<Rightarrow> error + bool" where
  "noValidFirstFrame ff =
     (if ff = [] \<or> ff = ''0x'' then Inr True
      else (case hexToBytes ff of Inl e \<Rightarrow> Inl e | Inr bytes \<Rightarrow> Inr (length bytes = 0)))"

text \<open>
  The loop over the newest update of each user. Each entry carries what
  \<^verbatim>\<open>readContract\<close> gave for that user, \<open>None\<close> when it raised; an exception inside
  the loop body is caught there and the loop goes on with the next user.
\<close>

fun loadClips ::
  "(byte list \<Rightarrow> byte list option) \<Rightarrow> nat \<Rightarrow> (string \<times> nat \<times> nat \<times> ClipData option) list
     \<Rightarrow> GridSlot list \<Rightarrow> nat \<Rightarrow> GridSlot list \<times> nat" where
  "loadClips inflate totalCells [] activeGridPlayers contractVideosLoaded =
     (activeGridPlayers, contractVideosLoaded)"
| "loadClips inflate totalCells ((userAddress, f, ts, clip) # rest) activeGridPlayers
      contractVideosLoaded =
     (if contractVideosLoaded \<ge> totalCells then (activeGridPlayers, contractVideosLoaded)
      else
        (case clip of
           None \<Rightarrow> loadClips inflate totalCells rest activeGridPlayers contractVideosLoaded
         | Some structuredClipData \<Rightarrow>
             (case noValidFirstFrame (firstFrame structuredClipData) of
                Inl e \<Rightarrow> loadClips inflate totalCells rest activeGridPlayers contractVideosLoaded
              | Inr True \<Rightarrow>
                  loadClips inflate totalCells rest activeGridPlayers contractVideosLoaded
              | Inr False \<Rightarrow>
                  loadClips inflate totalCells rest
                    (if contractVideosLoaded < length activeGridPlayers
                        \<and> activeGridPlayers ! contractVideosLoaded = NoisePlayer
                     then activeGridPlayers[contractVideosLoaded :=
                            GridPlayer (prepareForPlayback inflate
                              (newGridPlayerData structuredClipData userAddress f ts))]
                     else activeGridPlayers)
                    (contractVideosLoaded + 1))))"

section \<open>Modal playback of the recorded frames (main.js)\<close>

text \<open>
  A recorded frame is an object with a \<^verbatim>\<open>type\<close> (\<^verbatim>\<open>'full'\<close>, \<^verbatim>\<open>'raw_diff'\<close>, or the
  older \<^verbatim>\<open>'diff'\<close>) and the data of that type; a missing field is \<open>None\<close>. The static
  preview compares frames with \<^verbatim>\<open>===\<close>, that is by object identity, which \<open>ident\<close>
  stands for: every object of \<^verbatim>\<open>recordedFrames\<close> has its own.
\<close>

record StoredFrame =
  ident :: nat
  "type" :: string
  compressedData :: "byte list option"
  serializedData :: "Uint8Array option"

text \<open>
  One round of the static preview's walk over \<^verbatim>\<open>recordedFrames\<close>: \<open>Inl\<close> is a
  \<^verbatim>\<open>return\<close> (or a caught exception) with what was drawn, \<open>Inr\<close> the new local
  accumulator.
\<close>

definition staticStep ::
  "(byte list \<Rightarrow> byte list option) \<Rightarrow> StoredFrame \<Rightarrow> byte list option
     \<Rightarrow> drawn + byte list option" where
  "staticStep inflate frame tempReconstructed =
     (if type frame = ''full'' then
        (case compressedData frame of
           None \<Rightarrow> Inl NoDraw
         | Some c \<Rightarrow>
             (case inflate c of
                None \<Rightarrow> Inl (Label ''Reconstruction Error'')
              | Some pixels \<Rightarrow> Inr (Some pixels)))
      else if type frame = ''raw_diff'' then
        (case tempReconstructed of
           None \<Rightarrow> Inl (Label ''Error static diff preview'')
         | Some temp \<Rightarrow>
             (case serializedData frame of
                None \<Rightarrow> Inl NoDraw
              | Some sd \<Rightarrow>
                  (case deserializeDiff sd of
                     Inl e \<Rightarrow> Inl (Label ''Reconstruction Error'')
                   | Inr diffsToApply \<Rightarrow> Inr (Some (applyDiffs diffsToApply temp)))))
      else Inr tempReconstructed)"

fun staticWalk ::
  "(byte list \<Rightarrow> byte list option) \<Rightarrow> StoredFrame list \<Rightarrow> StoredFrame \<Rightarrow> byte list option
     \<Rightarrow> drawn" where
  "staticWalk inflate [] storedFrameData tempReconstructed = Label ''Error finding static diff''"
| "staticWalk inflate (frame # rest) storedFrameData tempReconstructed =
     (case staticStep inflate frame tempReconstructed of
        Inl d \<Rightarrow> d
      | Inr temp \<Rightarrow>
          if ident frame = ident storedFrameData then
            (case temp of None \<Rightarrow> Label ''No pixel data'' | Some pixels \<Rightarrow> Image pixels)
          else staticWalk inflate rest storedFrameData temp)"

text \<open>
  \<^verbatim>\<open>reconstructAndDrawFrame\<close>: the state is the global
  \<^verbatim>\<open>reconstructedModalPlaybackFrame\<close>, passed in and returned. Everything raised inside
  the \<^verbatim>\<open>try\<close> block is caught and drawn as \<^verbatim>\<open>'Reconstruction Error'\<close>.
\<close>

definition reconstructAndDrawFrame ::
  "(byte list \<Rightarrow> byte list option) \<Rightarrow> StoredFrame list \<Rightarrow> byte list option \<Rightarrow> StoredFrame
     \<Rightarrow> bool \<Rightarrow> byte list option \<times> drawn" where
  "reconstructAndDrawFrame inflate recordedFrames reconstructedModalPlaybackFrame storedFrameData
      isStaticPreview =
     (if type storedFrameData = [] then
        (reconstructedModalPlaybackFrame, Label ''Invalid frame data'')
      else if type storedFrameData = ''full'' then
        (case compressedData storedFrameData of
           None \<Rightarrow> (reconstructedModalPlaybackFrame, Label ''Error full frame data'')
         | Some c \<Rightarrow>
             (case inflate c of
                None \<Rightarrow> (reconstructedModalPlaybackFrame, Label ''Reconstruction Error'')
              | Some pixels \<Rightarrow>
                  (if isStaticPreview then reconstructedModalPlaybackFrame else Some pixels,
                   Image pixels)))
      else if type storedFrameData = ''raw_diff'' then
        (case serializedData storedFrameData of
           None \<Rightarrow> (reconstructedModalPlaybackFrame, Label ''Error diff data'')
         | Some sd \<Rightarrow>
             (case deserializeDiff sd of
                Inl e \<Rightarrow> (reconstructedModalPlaybackFrame, Label ''Reconstruction Error'')
              | Inr diffArray \<Rightarrow>
                  if isStaticPreview then
                    (reconstructedModalPlaybackFrame,
                     staticWalk inflate recordedFrames storedFrameData None)
                  else
                    (case reconstructedModalPlaybackFrame of
                       Some base \<Rightarrow>
                         (Some (applyDiffs diffArray base), Image (applyDiffs diffArray base))
                     | None \<Rightarrow>
                         (case find (\<lambda>f. type f = ''full'') recordedFrames of
                            None \<Rightarrow> (None, Label ''Error playback: no full frame'')
                          | Some firstFullFrame \<Rightarrow>
                              (case compressedData firstFullFrame of
                                 None \<Rightarrow> (None, Label ''Error playback: no full frame'')
                               | Some c \<Rightarrow>
                                   (case inflate c of
                                      None \<Rightarrow> (None, Label ''Reconstruction Error'')
                                    | Some base \<Rightarrow>
                                        (Some (applyDiffs diffArray base),
                                         Image (applyDiffs diffArray base))))))))
      else
        (case compressedData storedFrameData of
           None \<Rightarrow> (reconstructedModalPlaybackFrame, Label ''Error old diff data'')
         | Some c \<Rightarrow>
             (case inflate c of
                None \<Rightarrow> (reconstructedModalPlaybackFrame, Label ''Reconstruction Error'')
              | Some decompressedData \<Rightarrow>
                  (case deserializeDiff (fromBytes decompressedData) of
                     Inl e \<Rightarrow> (reconstructedModalPlaybackFrame, Label ''Reconstruction Error'')
                   | Inr diffArray \<Rightarrow>
                       (case reconstructedModalPlaybackFrame of
                          None \<Rightarrow> (None, NoDraw)
                        | Some base \<Rightarrow>
                            (Some (applyDiffs diffArray base),
                             Image (applyDiffs diffArray base)))))))"

text \<open>
  The playback timer of the modal: the frame index lives in the click handler's closure,
  the reference frame is the global. \<open>playbackInterval\<close> is False once the timer has
  been cleared. A tick returns the new state and, when it drew, the index it showed and
  what was drawn.
\<close>

record ModalPlayback =
  modalFrameIndex :: nat
  reconstructedModalPlaybackFrame :: "byte list option"
  playbackInterval :: bool

definition startPlayback :: ModalPlayback where
  "startPlayback =
     \<lparr>modalFrameIndex = 0, reconstructedModalPlaybackFrame = None, playbackInterval = True\<rparr>"

definition playbackTick ::
  "(byte list \<Rightarrow> byte list option) \<Rightarrow> StoredFrame list \<Rightarrow> ModalPlayback
     \<Rightarrow> ModalPlayback \<times> (nat \<times> drawn) option" where
  "playbackTick inflate recordedFrames s =
     (if \<not> playbackInterval s then (s, None)
      else
        let s1 = (if modalFrameIndex s \<ge> length recordedFrames
                  then s\<lparr>modalFrameIndex := 0, reconstructedModalPlaybackFrame := None\<rparr>
                  else s)
        in if modalFrameIndex s1 < length recordedFrames then
             (case reconstructAndDrawFrame inflate recordedFrames
                     (reconstructedModalPlaybackFrame s1)
                     (recordedFrames ! modalFrameIndex s1) False of
                (r, d) \<Rightarrow>
                  (s1\<lparr>modalFrameIndex := modalFrameIndex s1 + 1,
                      reconstructedModalPlaybackFrame := r\<rparr>,
                   Some (modalFrameIndex s1, d)))
           else (s1\<lparr>playbackInterval := False\<rparr>, None))"

section \<open>The log cache worker (fetch handler)\<close>

definition BLOCK_RANGE_LIMIT :: nat where "BLOCK_RANGE_LIMIT = 1000"
definition INITIAL_LOOKBACK_BLOCKS :: nat where "INITIAL_LOOKBACK_BLOCKS = 10000"

text \<open>
  \<^verbatim>\<open>Number(x)\<close> of a non-negative integer is the nearest double, ties going to the
  even mantissa: the integer itself below \<open>2^53\<close>, above it the integer rounded to
  its 53 leading binary digits, and \<^verbatim>\<open>Infinity\<close> when that rounding reaches
  \<open>2^1024\<close>. \<^verbatim>\<open>Infinity\<close> is written as the number \<open>2^1024\<close>, which no finite
  double is.
\<close>

fun bitLength :: "nat \<Rightarrow> nat" where
  "bitLength n = (if n = 0 then 0 else Suc (bitLength (n div 2)))"

declare bitLength.simps [simp del]

definition Infinity :: nat where "Infinity = 2 ^ 1024"

definition Number :: "nat \<Rightarrow> nat" where
  "Number n =
     (let e = bitLength n - 53; q = n div 2 ^ e; r = n mod 2 ^ e;
          nearest = (if 2 * r > 2 ^ e \<or> (2 * r = 2 ^ e \<and> odd q)
                     then (q + 1) * 2 ^ e else q * 2 ^ e)
      in if nearest \<ge> Infinity then Infinity else nearest)"

text \<open>
  A log as the worker handles it. Block numbers and timestamps are decimal strings in the
  JSON (natural numbers here); \<^verbatim>\<open>BigInt\<close> reads them exactly, \<^verbatim>\<open>Number\<close> rounds.
\<close>

record LogEntry =
  args_user :: string
  args_fid :: nat
  args_timestamp :: nat
  transactionHash :: string
  logIndex :: nat
  blockNumber :: nat

text \<open>
  \<^verbatim>\<open>Array.prototype.sort\<close> is stable: with a comparator that is a consistent order it
  gives the one sorted permutation that keeps equal elements in their order. It is
  modelled by insertion from the right, which does so.
\<close>

fun insort_js :: "('a \<Rightarrow> 'a \<Rightarrow> int) \<Rightarrow> 'a \<Rightarrow> 'a list \<Rightarrow> 'a list" where
  "insort_js cmp x [] = [x]"
| "insort_js cmp x (y # ys) = (if cmp x y \<le> 0 then x # y # ys else y # insort_js cmp x ys)"

definition sort_js :: "('a \<Rightarrow> 'a \<Rightarrow> int) \<Rightarrow> 'a list \<Rightarrow> 'a list" where
  "sort_js cmp xs = foldr (insort_js cmp) xs []"

text \<open>
  The two comparators. \<^verbatim>\<open>sort\<close> uses a comparator's result for its sign only and reads
  \<^verbatim>\<open>NaN\<close> as 0. The difference of two doubles has the sign of the exact difference of
  their values, and is \<^verbatim>\<open>NaN\<close> when both are \<^verbatim>\<open>Infinity\<close>; so the result is
  written as the exact difference, which is 0 in that case. In \<open>compareLogs\<close> a
  \<^verbatim>\<open>NaN\<close> difference of the timestamps is \<^verbatim>\<open>!== 0\<close> and is returned at once.
\<close>

definition compareTimestamp :: "LogEntry \<Rightarrow> LogEntry \<Rightarrow> int" where
  "compareTimestamp a b = int (Number (args_timestamp b)) - int (Number (args_timestamp a))"

definition compareLogs :: "LogEntry \<Rightarrow> LogEntry \<Rightarrow> int" where
  "compareLogs a b =
     (if Number (args_timestamp b) = Infinity \<and> Number (args_timestamp a) = Infinity then 0
      else
        let tsCompare = int (Number (args_timestamp b)) - int (Number (args_timestamp a)) in
        if tsCompare \<noteq> 0 then tsCompare
        else
          let blockCompare = int (blockNumber b) - int (blockNumber a) in
          if blockCompare \<noteq> 0 then (if blockCompare > 0 then 1 else - 1)
          else int (Number (logIndex b)) - int (Number (logIndex a)))"

text \<open>The decimal digits of a number, as a template literal prints it.\<close>

fun showNat :: "nat \<Rightarrow> string" where
  "showNat n =
     (if n < 10 then [char_of (48 + n)] else showNat (n div 10) @ [char_of (48 + n mod 10)])"

declare showNat.simps [simp del]

definition logSignature :: "LogEntry \<Rightarrow> string" where
  "logSignature log = transactionHash log @ ''-'' @ showNat (logIndex log)"

fun dedupLoop :: "LogEntry list \<Rightarrow> string set \<Rightarrow> LogEntry list \<Rightarrow> LogEntry list" where
  "dedupLoop [] logSignatures uniqueCombinedLogs = uniqueCombinedLogs"
| "dedupLoop (log # rest) logSignatures uniqueCombinedLogs =
     (if logSignature log \<notin> logSignatures
      then dedupLoop rest (insert (logSignature log) logSignatures) (uniqueCombinedLogs @ [log])
      else dedupLoop rest logSignatures uniqueCombinedLogs)"

definition sortAndDedupe :: "LogEntry list \<Rightarrow> LogEntry list" where
  "sortAndDedupe finalLogs = dedupLoop (sort_js compareLogs finalLogs) {} []"

text \<open>
  The paging loop. \<open>getLogs\<close> is the RPC call, \<open>None\<close> when it raises. The trace
  records every call and every failure written to the error log.
\<close>

datatype rpc_event = GetLogs nat nat | ChunkError nat nat

definition chunkEnd :: "nat \<Rightarrow> nat \<Rightarrow> nat" where
  "chunkEnd currentChunkStartBlock currentRpcLatestBlock =
     (if currentChunkStartBlock + (BLOCK_RANGE_LIMIT - 1) > currentRpcLatestBlock
      then currentRpcLatestBlock
      else currentChunkStartBlock + (BLOCK_RANGE_LIMIT - 1))"

definition chunkLogsOf :: "LogEntry list option \<Rightarrow> LogEntry list" where
  "chunkLogsOf r = (case r of None \<Rightarrow> [] | Some chunkLogs \<Rightarrow> chunkLogs)"

definition chunkEvents :: "nat \<Rightarrow> nat \<Rightarrow> LogEntry list option \<Rightarrow> rpc_event list" where
  "chunkEvents a b r = (case r of None \<Rightarrow> [GetLogs a b, ChunkError a b] | Some l \<Rightarrow> [GetLogs a b])"

function fetchChunks ::
  "(nat \<Rightarrow> nat \<Rightarrow> LogEntry list option) \<Rightarrow> nat \<Rightarrow> nat \<Rightarrow> LogEntry list \<Rightarrow> rpc_event list
     \<Rightarrow> LogEntry list \<times> rpc_event list" where
  "fetchChunks getLogs currentRpcLatestBlock currentChunkStartBlock newLogsFetched trace =
     (if currentChunkStartBlock \<le> currentRpcLatestBlock then
        (if chunkEnd currentChunkStartBlock currentRpcLatestBlock = currentRpcLatestBlock then
           (newLogsFetched
              @ chunkLogsOf (getLogs currentChunkStartBlock
                  (chunkEnd currentChunkStartBlock currentRpcLatestBlock)),
            trace @ chunkEvents currentChunkStartBlock
                      (chunkEnd currentChunkStartBlock currentRpcLatestBlock)
                      (getLogs currentChunkStartBlock
                         (chunkEnd currentChunkStartBlock currentRpcLatestBlock)))
         else
           fetchChunks getLogs currentRpcLatestBlock
             (chunkEnd currentChunkStartBlock currentRpcLatestBlock + 1)
             (newLogsFetched
                @ chunkLogsOf (getLogs currentChunkStartBlock
                    (chunkEnd currentChunkStartBlock currentRpcLatestBlock)))
             (trace @ chunkEvents currentChunkStartBlock
                        (chunkEnd currentChunkStartBlock currentRpcLatestBlock)
                        (getLogs currentChunkStartBlock
                           (chunkEnd currentChunkStartBlock currentRpcLatestBlock))))
      else (newLogsFetched, trace))"
  by pat_completeness auto
termination
  by (relation "measure (\<lambda>(g, latest, start, acc, tr). Suc latest - start)")
     (auto simp: chunkEnd_def BLOCK_RANGE_LIMIT_def split: if_splits)

declare fetchChunks.simps [simp del]

text \<open>
  What a read of the key-value store gives: it raises, it has no usable document (no
  document, or one without \<^verbatim>\<open>logs\<close> or without a block height), or it has one. The
  historical document is its logs and \<^verbatim>\<open>fetchedUpToBlock\<close>; the recent document is a
  response payload as the worker stored it. \<^verbatim>\<open>cacheTimestamp\<close> is the time of the call
  and is left out, as are the HTTP headers.
\<close>

datatype 'a kv_get = KvError | KvMiss | KvHit 'a

record Payload =
  logs :: "LogEntry list"
  cachedUpToBlock :: nat
  totalLogs :: nat
  source :: string

datatype Response = Response200 Payload | Response500

record Outcome =
  response :: Response
  rpc :: "rpc_event list"
  kvPut :: "Payload option"

record CacheState =
  baseLogs :: "LogEntry list"
  effectiveCachedUpToBlock :: nat
  cacheStatus :: string

definition loadHistorical :: "(LogEntry list \<times> nat) kv_get \<Rightarrow> CacheState \<Rightarrow> CacheState" where
  "loadHistorical historicalData st =
     (case historicalData of
        KvHit (l, fetchedUpToBlock) \<Rightarrow>
          \<lparr>baseLogs = l, effectiveCachedUpToBlock = fetchedUpToBlock,
           cacheStatus = ''HIT_HISTORICAL''\<rparr>
      | _ \<Rightarrow> st)"

text \<open>\<open>Inl\<close> is the early return of the stored recent document.\<close>

definition loadRecent :: "Payload kv_get \<Rightarrow> nat \<Rightarrow> CacheState \<Rightarrow> Payload + CacheState" where
  "loadRecent recentCachedResult currentRpcLatestBlock st =
     (case recentCachedResult of
        KvHit r \<Rightarrow>
          if cachedUpToBlock r \<ge> effectiveCachedUpToBlock st then
            (if cachedUpToBlock r \<ge> currentRpcLatestBlock then Inl r
             else Inr \<lparr>baseLogs = logs r, effectiveCachedUpToBlock = cachedUpToBlock r,
                       cacheStatus = ''HIT_RECENT''\<rparr>)
          else Inr st
      | _ \<Rightarrow> Inr st)"

text \<open>
  The merge after the paging: concatenate, sort, drop repeated signatures, answer with
  the chain head as the covered height and store the answer as the recent document.
\<close>

definition mergeAndRespond ::
  "bool \<Rightarrow> nat \<Rightarrow> CacheState \<Rightarrow> nat \<Rightarrow> (nat \<Rightarrow> nat \<Rightarrow> LogEntry list option) \<Rightarrow> Outcome" where
  "mergeAndRespond hasCache currentRpcLatestBlock st queryFromBlock getLogs =
     (let fetchPerformed = (queryFromBlock \<le> currentRpcLatestBlock);
          fetched = (if fetchPerformed
                     then fetchChunks getLogs currentRpcLatestBlock queryFromBlock [] []
                     else ([], []));
          newLogsFetched = fst fetched;
          finalLogs = (if fetchPerformed \<and> newLogsFetched \<noteq> []
                       then baseLogs st @ newLogsFetched else baseLogs st);
          uniqueCombinedLogs = sortAndDedupe finalLogs;
          responsePayload =
            \<lparr>logs = uniqueCombinedLogs, cachedUpToBlock = currentRpcLatestBlock,
             totalLogs = length uniqueCombinedLogs,
             source = (if fetchPerformed
                       then (if effectiveCachedUpToBlock st > 0 then ''rpc_delta_update''
                             else ''rpc_initial_fetch'')
                       else cacheStatus st)\<rparr>
      in \<lparr>response = Response200 responsePayload, rpc = snd fetched,
          kvPut = (if hasCache then Some responsePayload else None)\<rparr>)"

text \<open>
  The three cases after the caches are read. The first block of the initial fetch is
  \<^verbatim>\<open>BigInt(Math.max(0, Number(currentRpcLatestBlock) - (INITIAL_LOOKBACK_BLOCKS - 1)))\<close>:
  the chain head is rounded to a double, the subtraction is a double subtraction (the
  exact difference, rounded), and the maximum with 0 is the natural-number subtraction.
  \<^verbatim>\<open>BigInt(Infinity)\<close> raises, which the outer \<^verbatim>\<open>catch\<close> turns into a 500 response.
\<close>

definition reconcile ::
  "bool \<Rightarrow> nat \<Rightarrow> CacheState \<Rightarrow> (nat \<Rightarrow> nat \<Rightarrow> LogEntry list option) \<Rightarrow> Outcome" where
  "reconcile hasCache currentRpcLatestBlock st getLogs =
     (if effectiveCachedUpToBlock st > 0 \<and> currentRpcLatestBlock > effectiveCachedUpToBlock st
      then mergeAndRespond hasCache currentRpcLatestBlock st (effectiveCachedUpToBlock st + 1)
             getLogs
      else if effectiveCachedUpToBlock st > 0
              \<and> currentRpcLatestBlock \<le> effectiveCachedUpToBlock st
      then \<lparr>response = Response200
              \<lparr>logs = sort_js compareTimestamp (baseLogs st),
               cachedUpToBlock = effectiveCachedUpToBlock st,
               totalLogs = length (baseLogs st), source = cacheStatus st\<rparr>,
            rpc = [], kvPut = None\<rparr>
      else if Number currentRpcLatestBlock = Infinity
      then \<lparr>response = Response500, rpc = [], kvPut = None\<rparr>
      else mergeAndRespond hasCache currentRpcLatestBlock
             (st\<lparr>baseLogs := [], cacheStatus := ''MISS_INITIAL_FETCH''\<rparr>)
             (Number (Number currentRpcLatestBlock - (INITIAL_LOOKBACK_BLOCKS - 1))) getLogs)"

text \<open>
  The handler from the first RPC call on. \<open>LOG_CACHE\<close> is \<open>None\<close> when the worker has
  no key-value binding, else what the two reads give; \<open>getBlockNumber\<close> is \<open>None\<close>
  when that call raises, which the outer \<^verbatim>\<open>catch\<close> turns into a 500 response.
\<close>

definition fetch ::
  "((LogEntry list \<times> nat) kv_get \<times> Payload kv_get) option \<Rightarrow> nat option
     \<Rightarrow> (nat \<Rightarrow> nat \<Rightarrow> LogEntry list option) \<Rightarrow> Outcome" where
  "fetch LOG_CACHE getBlockNumber getLogs =
     (case getBlockNumber of
        None \<Rightarrow> \<lparr>response = Response500, rpc = [], kvPut = None\<rparr>
      | Some currentRpcLatestBlock \<Rightarrow>
          (let st0 = \<lparr>baseLogs = [], effectiveCachedUpToBlock = 0,
                      cacheStatus = ''MISS_FULL_FETCH''\<rparr>
           in case LOG_CACHE of
                None \<Rightarrow> reconcile False currentRpcLatestBlock st0 getLogs
              | Some (historicalData, recentCachedResult) \<Rightarrow>
                  (case loadRecent recentCachedResult currentRpcLatestBlock
                          (loadHistorical historicalData st0) of
                     Inl r \<Rightarrow> \<lparr>response = Response200 r, rpc = [], kvPut = None\<rparr>
                   | Inr st \<Rightarrow> reconcile True currentRpcLatestBlock st getLogs)))"

section \<open>The backfill script (populateHistoricalKv.js)\<close>

text \<open>
  The script that writes the historical document: it stops when the chain head is not
  past its start block, pages from the start block to the head with the same loop as the
  handler (a failed chunk is logged and, after a pause, passed over), and when it found
  logs it stores them sorted by timestamp with the head as \<^verbatim>\<open>fetchedUpToBlock\<close>. The
  argument is the chain head it read; the result is the document it sends to the store,
  \<open>None\<close> when it sends nothing.
\<close>

definition START_BLOCK :: nat where "START_BLOCK = 15592132"

definition populateHistoricalKv ::
  "nat \<Rightarrow> (nat \<Rightarrow> nat \<Rightarrow> LogEntry list option) \<Rightarrow> (LogEntry list \<times> nat) option" where
  "populateHistoricalKv currentLatestBlock getLogs =
     (if START_BLOCK \<ge> currentLatestBlock then None
      else
        let allHistoricalLogs = fst (fetchChunks getLogs currentLatestBlock START_BLOCK [] [])
        in if allHistoricalLogs \<noteq> []
           then Some (sort_js compareTimestamp allHistoricalLogs, currentLatestBlock)
           else None)"

section \<open>Definitions for stating the properties\<close>

subsection \<open>Runs of the playback loops\<close>

text \<open>
  The modal playback after \<open>n\<close> ticks of its timer, from the state the click handler
  sets up; the grid playback of one cell after \<open>n\<close> due ticks.
\<close>

definition modalRun ::
  "(byte list \<Rightarrow> byte list option) \<Rightarrow> StoredFrame list \<Rightarrow> nat \<Rightarrow> ModalPlayback" where
  "modalRun inflate recordedFrames n =
     ((\<lambda>s. fst (playbackTick inflate recordedFrames s)) ^^ n) startPlayback"

definition gridRun ::
  "(byte list \<Rightarrow> byte list option) \<Rightarrow> GridPlayerData \<Rightarrow> nat \<Rightarrow> GridPlayerData" where
  "gridRun inflate player n = (gridTick inflate ^^ n) player"

text \<open>
  Two player states of the same clip: they agree on everything but the playhead (the
  frame index and the reference frame for the next delta). A player is prepared when
  \<^verbatim>\<open>prepareForPlayback\<close> has nothing left to do on it: what is still missing does not
  decompress. \<open>frame0Drawn\<close> is what the render shows at frame index 0, read off the
  clip's data.
\<close>

definition sameClip :: "GridPlayerData \<Rightarrow> GridPlayerData \<Rightarrow> bool" where
  "sameClip p q =
     (firstFrameCompressed p = firstFrameCompressed q
      \<and> allDiffsCompressedBlob p = allDiffsCompressedBlob q
      \<and> diffLengths p = diffLengths q
      \<and> totalFrames p = totalFrames q
      \<and> reconstructedIBaseFrameData p = reconstructedIBaseFrameData q
      \<and> decompressedDiffsBlob p = decompressedDiffsBlob q)"

definition prepared :: "(byte list \<Rightarrow> byte list option) \<Rightarrow> GridPlayerData \<Rightarrow> bool" where
  "prepared inflate p =
     ((firstFrameCompressed p \<noteq> [] \<and> reconstructedIBaseFrameData p = None
         \<longrightarrow> inflateHex inflate (firstFrameCompressed p) = None)
      \<and> (allDiffsCompressedBlob p \<noteq> [] \<and> decompressedDiffsBlob p = None \<and> diffLengths p \<noteq> []
         \<longrightarrow> inflateHex inflate (allDiffsCompressedBlob p) = None))"

definition frame0Drawn :: "GridPlayerData \<Rightarrow> drawn" where
  "frame0Drawn p =
     (if totalFrames p = 0 then NoDraw
      else if reconstructedIBaseFrameData p = None \<and> firstFrameCompressed p \<noteq> []
      then Label ''I-ERR''
      else if diffLengths p \<noteq> [] \<and> decompressedDiffsBlob p = None
              \<and> allDiffsCompressedBlob p \<noteq> []
      then Label ''P-ERR''
      else (case reconstructedIBaseFrameData p of None \<Rightarrow> NoDraw | Some base \<Rightarrow> Image base))"

text \<open>
  The raster that a delta is applied to: in the modal playback the reference frame, or
  the first full frame decompressed when the reference is unset; in the grid playback
  the reference of the previous frame, or the first frame when that is unset.
\<close>

definition modalPrevious ::
  "(byte list \<Rightarrow> byte list option) \<Rightarrow> StoredFrame list \<Rightarrow> byte list option
     \<Rightarrow> byte list option" where
  "modalPrevious inflate recordedFrames reference =
     (case reference of
        Some base \<Rightarrow> Some base
      | None \<Rightarrow>
          (case find (\<lambda>f. type f = ''full'') recordedFrames of
             None \<Rightarrow> None
           | Some firstFullFrame \<Rightarrow>
               (case compressedData firstFullFrame of None \<Rightarrow> None | Some c \<Rightarrow> inflate c)))"

definition gridPrevious ::
  "(byte list \<Rightarrow> byte list option) \<Rightarrow> GridPlayerData \<Rightarrow> byte list option" where
  "gridPrevious inflate player =
     (case currentPFramePixelData player of
        Some p \<Rightarrow> Some p
      | None \<Rightarrow>
          (case reconstructedIBaseFrameData player of
             Some base \<Rightarrow> Some base
           | None \<Rightarrow>
               if firstFrameCompressed player \<noteq> []
               then inflateHex inflate (firstFrameCompressed player) else None))"

subsection \<open>The log cache in the specification's words\<close>

text \<open>
  The identity of a log entry and the sort order, in the specification's words: newest
  first is timestamp descending, then block number descending, then log index
  descending; \<open>newerFirst\<close> is timestamp descending alone.
\<close>

definition identity :: "LogEntry \<Rightarrow> string \<times> nat" where
  "identity log = (transactionHash log, logIndex log)"

definition sortKey :: "LogEntry \<Rightarrow> nat \<times> nat \<times> nat" where
  "sortKey log = (args_timestamp log, blockNumber log, logIndex log)"

definition newestFirst :: "LogEntry \<Rightarrow> LogEntry \<Rightarrow> bool" where
  "newestFirst a b =
     (args_timestamp a > args_timestamp b
      \<or> (args_timestamp a = args_timestamp b
          \<and> (blockNumber a > blockNumber b
              \<or> (blockNumber a = blockNumber b \<and> logIndex a \<ge> logIndex b))))"

definition newerFirst :: "LogEntry \<Rightarrow> LogEntry \<Rightarrow> bool" where
  "newerFirst a b = (args_timestamp a \<ge> args_timestamp b)"

text \<open>Keeping the first entry of each signature, as a function of the list alone.\<close>

fun keepFirst :: "string set \<Rightarrow> LogEntry list \<Rightarrow> LogEntry list" where
  "keepFirst seen [] = []"
| "keepFirst seen (log # rest) =
     (if logSignature log \<in> seen then keepFirst seen rest
      else log # keepFirst (insert (logSignature log) seen) rest)"

text \<open>The payload of a response, when it has one.\<close>

definition payloadOf :: "Response \<Rightarrow> Payload option" where
  "payloadOf r = (case r of Response200 p \<Rightarrow> Some p | Response500 \<Rightarrow> None)"

text \<open>
  The chunks of the block range from \<open>start\<close> to \<open>latest\<close>, each at most
  \<open>BLOCK_RANGE_LIMIT\<close> blocks, and the ranges a trace queried and logged as failed.
\<close>

function chunkRanges :: "nat \<Rightarrow> nat \<Rightarrow> (nat \<times> nat) list" where
  "chunkRanges latest start =
     (if start \<le> latest then
        (start, chunkEnd start latest)
          # (if chunkEnd start latest = latest then []
             else chunkRanges latest (chunkEnd start latest + 1))
      else [])"
  by pat_completeness auto
termination
  by (relation "measure (\<lambda>(latest, start). Suc latest - start)")
     (auto simp: chunkEnd_def BLOCK_RANGE_LIMIT_def split: if_splits)

declare chunkRanges.simps [simp del]

definition queried :: "rpc_event list \<Rightarrow> (nat \<times> nat) list" where
  "queried trace =
     concat (map (\<lambda>e. case e of GetLogs a b \<Rightarrow> [(a, b)] | ChunkError a b \<Rightarrow> []) trace)"

definition failed :: "rpc_event list \<Rightarrow> (nat \<times> nat) list" where
  "failed trace =
     concat (map (\<lambda>e. case e of GetLogs a b \<Rightarrow> [] | ChunkError a b \<Rightarrow> [(a, b)]) trace)"

text \<open>
  The base tier in the specification's words: the historical tier when it is present,
  replaced by the recent tier when that is present and covers at least as far.
\<close>

datatype tier = Historical | Recent

definition chosenBase ::
  "(LogEntry list \<times> nat) kv_get \<Rightarrow> Payload kv_get \<Rightarrow> (tier \<times> LogEntry list \<times> nat) option" where
  "chosenBase historicalData recentCachedResult =
     (let historical = (case historicalData of
                          KvHit (l, h) \<Rightarrow> Some (Historical, l, h)
                        | _ \<Rightarrow> None)
      in case recentCachedResult of
           KvHit r \<Rightarrow>
             if cachedUpToBlock r \<ge> (case historical of Some (t, l, h) \<Rightarrow> h | None \<Rightarrow> 0)
             then Some (Recent, logs r, cachedUpToBlock r)
             else historical
         | _ \<Rightarrow> historical)"

text \<open>
  What is left to fetch, in the specification's words: nothing (\<open>None\<close>) when the
  chosen base covers the chain head; otherwise the base logs that are kept and the first
  block to query, which is the block after the base's height, or the start of the
  bounded lookback, with no base logs, when there is no base. A height of 0 counts as no
  base unless it is an up-to-date recent tier. The lookback is the handler's (last 10,000
  blocks, through doubles); a chain head that no double holds has none.
\<close>

definition lookback :: "nat \<Rightarrow> (LogEntry list \<times> nat) option" where
  "lookback latest =
     (if Number latest = Infinity then None
      else Some ([], Number (Number latest - (INITIAL_LOOKBACK_BLOCKS - 1))))"

definition mergePlan ::
  "((LogEntry list \<times> nat) kv_get \<times> Payload kv_get) option \<Rightarrow> nat
     \<Rightarrow> (LogEntry list \<times> nat) option" where
  "mergePlan LOG_CACHE latest =
     (case (case LOG_CACHE of
              None \<Rightarrow> None
            | Some (historicalData, recentCachedResult) \<Rightarrow>
                chosenBase historicalData recentCachedResult) of
        Some (t, l, h) \<Rightarrow>
          if h \<ge> latest \<and> (t = Recent \<or> h > 0) then None
          else if h > 0 then Some (l, h + 1)
          else lookback latest
      | None \<Rightarrow> lookback latest)"

text \<open>The logs of the chunks that answered, in the order of the chunks.\<close>

definition fetchedLogs ::
  "(nat \<Rightarrow> nat \<Rightarrow> LogEntry list option) \<Rightarrow> nat \<Rightarrow> nat \<Rightarrow> LogEntry list" where
  "fetchedLogs getLogs latest start =
     concat (map (\<lambda>(a, b). chunkLogsOf (getLogs a b)) (chunkRanges latest start))"

text \<open>
  A log whose timestamp and log index are below \<open>2^53\<close>, as block timestamps (seconds)
  and the positions of logs in a block are; \<^verbatim>\<open>Number\<close> is exact on them.
\<close>

definition inRange :: "LogEntry \<Rightarrow> bool" where
  "inRange log = (args_timestamp log < 2 ^ 53 \<and> logIndex log < 2 ^ 53)"

text \<open>
  The two documents as their writers leave them: the backfill script stores a positive
  height, and the handler stores its logs sorted newest first.
\<close>

definition storedTiers :: "(LogEntry list \<times> nat) kv_get \<Rightarrow> Payload kv_get \<Rightarrow> bool" where
  "storedTiers historicalData recentCachedResult =
     ((case historicalData of KvHit (l, h) \<Rightarrow> h > 0 | _ \<Rightarrow> True)
      \<and> (case recentCachedResult of KvHit r \<Rightarrow> sorted_wrt newerFirst (logs r) | _ \<Rightarrow> True))"

subsection \<open>Example inputs\<close>

text \<open>
  Small inputs for the closed theorems below. The example decompressor is \<open>Some\<close>:
  the stored bytes are the raster.
\<close>

definition bugPlayer :: GridPlayerData where
  "bugPlayer =
     \<lparr>sender = ''0xab'', fid = 1, timestamp = 2, firstFrameCompressed = ''0x00'',
      allDiffsCompressedBlob = ''0x00'', diffLengths = [3, 6], totalFrames = 3,
      currentFrameIndex = 2,
      reconstructedIBaseFrameData = Some [0, 0, 0, 0, 0],
      decompressedDiffsBlob = Some [1, 0, 10, 2, 0, 20, 3, 0, 30],
      currentPFramePixelData = Some [0, 10, 0, 0, 0]\<rparr>"

definition exDiffs :: "diff list" where
  "exDiffs = [\<lparr>index = 1, value = 9\<rparr>, \<lparr>index = 7, value = 5\<rparr>]"

definition exRawDiff :: StoredFrame where
  "exRawDiff = \<lparr>ident = 1, type = ''raw_diff'', compressedData = None,
                 serializedData = Some (fromBytes [1, 0, 9, 7, 0, 5])\<rparr>"

definition exFull :: StoredFrame where
  "exFull = \<lparr>ident = 0, type = ''full'', compressedData = Some [0, 0, 0],
              serializedData = None\<rparr>"

definition exPlayer :: GridPlayerData where
  "exPlayer =
     \<lparr>sender = ''0xab'', fid = 1, timestamp = 2, firstFrameCompressed = ''0x000000'',
      allDiffsCompressedBlob = ''0x010009070005'', diffLengths = [6], totalFrames = 2,
      currentFrameIndex = 1,
      reconstructedIBaseFrameData = Some [0, 0, 0],
      decompressedDiffsBlob = Some [1, 0, 9, 7, 0, 5],
      currentPFramePixelData = Some [0, 0, 0]\<rparr>"

definition exClip :: ClipData where
  "exClip = \<lparr>firstFrame = ''0x000000'', compressedDiffs = ''0x010009070005'',
              clipDiffLengths = [6], clipFid = 1, clipTimestamp = 2\<rparr>"

definition zeroClip :: ClipData where
  "zeroClip = \<lparr>firstFrame = ''0x0000'', compressedDiffs = ''0x'', clipDiffLengths = [],
                clipFid = 7, clipTimestamp = 1700000000\<rparr>"

definition emptyClip :: ClipData where
  "emptyClip = \<lparr>firstFrame = ''0x'', compressedDiffs = ''0x'', clipDiffLengths = [],
                 clipFid = 8, clipTimestamp = 1700000001\<rparr>"

definition exLogA :: LogEntry where
  "exLogA = \<lparr>args_user = ''0xu1'', args_fid = 11, args_timestamp = 100,
              transactionHash = ''0xaa'', logIndex = 0, blockNumber = 5\<rparr>"

definition exLogB :: LogEntry where
  "exLogB = \<lparr>args_user = ''0xu2'', args_fid = 12, args_timestamp = 200,
              transactionHash = ''0xbb'', logIndex = 1, blockNumber = 7\<rparr>"

definition exRecent :: Payload where
  "exRecent = \<lparr>logs = [exLogA], cachedUpToBlock = 4, totalLogs = 1,
                source = ''rpc_initial_fetch''\<rparr>"

definition exGetLogs :: "nat \<Rightarrow> nat \<Rightarrow> LogEntry list option" where
  "exGetLogs a b = (if a = 5 then None else if a = 1005 then Some [exLogA, exLogB] else Some [])"

definition noLogs :: "nat \<Rightarrow> nat \<Rightarrow> LogEntry list option" where
  "noLogs a b = Some []"

section \<open>Properties of the serializer\<close>

lemma upd3:
  "offset + 3 \<le> length buf \<Longrightarrow>
   buf[offset := a, offset + 1 := b, offset + 2 := c] = take offset buf @ [a, b, c] @ drop (offset + 3) buf"
proof (rule nth_equalityI)
  assume len: "offset + 3 \<le> length buf"
  show "length (buf[offset := a, offset + 1 := b, offset + 2 := c]) =
        length (take offset buf @ [a, b, c] @ drop (offset + 3) buf)"
    using len by simp
  fix i
  assume "i < length (buf[offset := a, offset + 1 := b, offset + 2 := c])"
  then have i: "i < length buf" by simp
  consider "i < offset" | "i = offset" | "i = offset + 1" | "i = offset + 2" | "offset + 3 \<le> i"
    by linarith
  then show "buf[offset := a, offset + 1 := b, offset + 2 := c] ! i =
             (take offset buf @ [a, b, c] @ drop (offset + 3) buf) ! i"
  proof cases
    case 1
    then show ?thesis using len by (simp add: nth_append)
  next
    case 2
    then show ?thesis using len by (simp add: nth_append)
  next
    case 3
    then show ?thesis using len by (simp add: nth_append)
  next
    case 4
    then show ?thesis using len by (simp add: nth_append)
  next
    case 5
    then obtain j where j: "i = offset + 3 + j" using le_Suc_ex by blast
    show ?thesis using len i unfolding j by (simp add: nth_append)
  qed
qed

lemma serializeDiff_loop_eq:
  "offset + 3 * length ds \<le> length buf \<Longrightarrow>
   serializeDiff_loop ds offset buf =
     Inr (take offset buf @ concat (map encodeRecord ds) @ drop (offset + 3 * length ds) buf)"
proof (induction ds arbitrary: offset buf)
  case Nil
  then show ?case by simp
next
  case (Cons d ds)
  let ?b = "buf[offset := of_nat (index d mod 256), offset + 1 := of_nat (index d div 256 mod 256),
                offset + 2 := of_nat (value d mod 256)]"
  have len: "offset + 3 \<le> length buf" using Cons.prems by simp
  have step: "serializeDiff_loop (d # ds) offset buf = serializeDiff_loop ds (offset + 3) ?b"
    using len by (simp add: setUint16_def setUint8_def)
  have b: "?b = take offset buf @ encodeRecord d @ drop (offset + 3) buf"
    using upd3 [OF len] by (simp add: encodeRecord_def)
  have "serializeDiff_loop ds (offset + 3) ?b =
        Inr (take (offset + 3) ?b @ concat (map encodeRecord ds) @ drop (offset + 3 + 3 * length ds) ?b)"
    using Cons.prems by (intro Cons.IH) simp
  moreover have "take (offset + 3) ?b = take offset buf @ encodeRecord d"
    using len by (subst b) (simp add: encodeRecord_def)
  moreover have "drop (offset + 3 + 3 * length ds) ?b = drop (offset + 3 * length (d # ds)) buf"
  proof -
    have "drop (offset + 3 + 3 * length ds) ?b =
          drop (3 * length ds) (drop (offset + 3) ?b)"
      by (simp add: add.commute)
    also have "drop (offset + 3) ?b = drop (offset + 3) buf"
      using len by (subst b) (simp add: encodeRecord_def)
    finally show ?thesis by (simp add: algebra_simps)
  qed
  ultimately show ?case using step by (simp add: add.assoc)
qed

lemma deserializeDiff_loop_ok:
  "byteLength u \<le> offset + 3 * k \<Longrightarrow> offset + 3 * k < byteLength u + 3 \<Longrightarrow>
   offset + 3 * k \<le> length (buffer u) \<Longrightarrow>
   deserializeDiff_loop u offset acc =
     Inr (acc @ decodeRecords (take (3 * k) (drop offset (buffer u))))"
proof (induction k arbitrary: offset acc)
  case 0
  then show ?case by (subst deserializeDiff_loop.simps) simp
next
  case (Suc k)
  let ?buf = "buffer u"
  let ?d = "\<lparr>index = unat (?buf ! offset) + 256 * unat (?buf ! (offset + 1)),
            value = unat (?buf ! (offset + 2))\<rparr>"
  have len: "offset + 3 \<le> length ?buf" and lt: "offset < byteLength u"
    using Suc.prems by simp_all
  have d: "drop offset ?buf =
           ?buf ! offset # ?buf ! (offset + 1) # ?buf ! (offset + 2) # drop (offset + 3) ?buf"
    using len by (simp add: Cons_nth_drop_Suc numeral_3_eq_3)
  have "deserializeDiff_loop u offset acc = deserializeDiff_loop u (offset + 3) (acc @ [?d])"
    using len lt by (subst deserializeDiff_loop.simps) (simp add: getUint16_def getUint8_def)
  also have "\<dots> = Inr ((acc @ [?d]) @ decodeRecords (take (3 * k) (drop (offset + 3) ?buf)))"
    using Suc.prems by (intro Suc.IH) simp_all
  also have "\<dots> = Inr (acc @ decodeRecords (take (3 * Suc k) (drop offset ?buf)))"
    by (subst d) (simp add: numeral_3_eq_3)
  finally show ?case .
qed

lemma deserializeDiff_reads_buffer_start:
  "byteLength u \<le> 3 * k \<Longrightarrow> 3 * k < byteLength u + 3 \<Longrightarrow> 3 * k \<le> length (buffer u) \<Longrightarrow>
   deserializeDiff u = Inr (decodeRecords (take (3 * k) (buffer u)))"
  using deserializeDiff_loop_ok [of u 0 k "[]"] by (simp add: deserializeDiff_def)

lemma deserializeDiff_loop_fail:
  "byteLength u = length (buffer u) \<Longrightarrow> offset \<le> byteLength u \<Longrightarrow>
   (byteLength u - offset) mod 3 \<noteq> 0 \<Longrightarrow> deserializeDiff_loop u offset acc = Inl RangeError"
proof (induction u offset acc rule: deserializeDiff_loop.induct)
  case (1 u offset acc)
  show ?case
  proof (cases "offset + 3 \<le> length (buffer u)")
    case True
    have "(byteLength u - (offset + 3)) mod 3 \<noteq> 0"
      using "1.prems" True by presburger
    then show ?thesis
      using "1.prems" True "1.IH"
      by (subst deserializeDiff_loop.simps) (simp add: getUint16_def getUint8_def)
  next
    case False
    then have "offset < byteLength u" using "1.prems" by (cases "offset = byteLength u") auto
    then show ?thesis
      using False "1.prems"
      by (subst deserializeDiff_loop.simps) (auto simp: getUint16_def getUint8_def)
  qed
qed

lemma decodeRecords_encode:
  "\<forall>d \<in> set ds. index d < 65536 \<and> value d < 256 \<Longrightarrow>
   decodeRecords (concat (map encodeRecord ds)) = ds"
proof (induction ds)
  case Nil
  then show ?case by simp
next
  case (Cons d ds)
  have i: "index d < 65536" and v: "value d < 256" using Cons.prems by simp_all
  have "unat (of_nat (index d mod 256) :: byte) = index d mod 256"
    by (simp add: unat_of_nat)
  moreover have "unat (of_nat (index d div 256 mod 256) :: byte) = index d div 256"
    using i by (simp add: unat_of_nat)
  moreover have "unat (of_nat (value d mod 256) :: byte) = value d"
    using v by (simp add: unat_of_nat)
  ultimately show ?case using Cons by (simp add: encodeRecord_def)
qed

lemma length_decodeRecords: "length (decodeRecords bs) = length bs div 3"
  by (induction bs rule: decodeRecords.induct) simp_all

lemma diffFrames_loop_eq:
  "n - k = m \<Longrightarrow> k \<le> n \<Longrightarrow> length cur = 4 * n \<Longrightarrow> length prev = 4 * n \<Longrightarrow>
   diffFrames_loop cur prev (4 * k) acc =
     acc @ map (\<lambda>i. \<lparr>index = i, value = unat (cur ! (4 * i))\<rparr>)
             (filter (pixelChanged cur prev) [k..<n])"
proof (induction m arbitrary: k acc)
  case 0
  then have "k = n" by simp
  then show ?case using 0 by (subst diffFrames_loop.simps) simp
next
  case (Suc m)
  then have lt: "k < n" by simp
  have next_k: "4 * k + 4 = 4 * Suc k" by simp
  have IH: "\<And>acc'. diffFrames_loop cur prev (4 * Suc k) acc' =
     acc' @ map (\<lambda>i. \<lparr>index = i, value = unat (cur ! (4 * i))\<rparr>)
             (filter (pixelChanged cur prev) [Suc k..<n])"
    using Suc.prems lt by (intro Suc.IH) simp_all
  have step: "diffFrames_loop cur prev (4 * k) acc =
        diffFrames_loop cur prev (4 * Suc k)
          (if pixelChanged cur prev k then acc @ [\<lparr>index = k, value = unat (cur ! (4 * k))\<rparr>] else acc)"
    using lt Suc.prems(3,4)
    by (subst diffFrames_loop.simps, subst next_k) (simp add: pixelChanged_def)
  have up: "[k..<n] = k # [Suc k..<n]" using lt by (simp add: upt_conv_Cons)
  show ?case unfolding step IH up by simp
qed

text \<open>
  Claim C3. For two frames of \<open>n\<close> pixels each (\<open>4 * n\<close> bytes of RGBA data; the
  recorder's frames have \<open>n = TOTAL_PIXELS\<close>), \<^verbatim>\<open>diffFrames\<close> returns the record
  \<open>(i, current[i])\<close> for exactly the pixels \<open>i\<close> whose grayscale values differ by more
  than 5, in ascending order of \<open>i\<close>: the result is the list of pixel indices below
  \<open>n\<close>, filtered by that test, each paired with the current frame's value.
\<close>

theorem diffFrames_exact:
  assumes "length currentData = 4 * n" and "length previousData = 4 * n"
  shows "diffFrames currentData previousData =
           map (\<lambda>i. \<lparr>index = i, value = unat (currentData ! (4 * i))\<rparr>)
             (filter (pixelChanged currentData previousData) [0..<n])"
  using diffFrames_loop_eq [of n 0 n currentData previousData "[]"] assms
  by (simp add: diffFrames_def)

theorem diffFrames_exact_witness:
  "diffFrames [10, 10, 10, 255, 20, 20, 20, 255, 30, 30, 30, 255]
              [10, 10, 10, 255, 26, 26, 26, 255, 25, 25, 25, 255]
     = [\<lparr>index = 1, value = 20\<rparr>]"
proof -
  let ?c = "[10, 10, 10, 255, 20, 20, 20, 255, 30, 30, 30, 255] :: byte list"
  let ?p = "[10, 10, 10, 255, 26, 26, 26, 255, 25, 25, 25, 255] :: byte list"
  have "map (\<lambda>i. \<lparr>index = i, value = unat (?c ! (4 * i))\<rparr>) (filter (pixelChanged ?c ?p) [0..<3])
        = [\<lparr>index = 1, value = 20\<rparr>]"
    by (simp add: pixelChanged_def upt_conv_Cons)
  then show ?thesis
    using diffFrames_exact [of ?c 3 ?p] by simp
qed

text \<open>
  Claim C2. For every list of records with each index below \<open>TOTAL_PIXELS\<close> (25600)
  and each value at most 255, \<^verbatim>\<open>serializeDiff\<close> succeeds, its result is exactly the
  three bytes of each record in order (index low byte, index high byte, value) with
  nothing before, between or after them, and \<^verbatim>\<open>deserializeDiff\<close> of that result is the
  same list in the same order.
\<close>

theorem serializeDiff_roundtrip:
  assumes "\<forall>d \<in> set changes. index d < TOTAL_PIXELS \<and> value d \<le> 255"
  shows "serializeDiff changes = Inr (fromBytes (concat (map encodeRecord changes)))
         \<and> length (concat (map encodeRecord changes)) = 3 * length changes
         \<and> deserializeDiff (fromBytes (concat (map encodeRecord changes))) = Inr changes"
proof -
  let ?bytes = "concat (map encodeRecord changes)"
  have len: "length ?bytes = 3 * length changes"
    by (induction changes) (simp_all add: encodeRecord_def)
  have "serializeDiff_loop changes 0 (replicate (length changes * 3) 0) = Inr ?bytes"
    using serializeDiff_loop_eq [of 0 changes "replicate (length changes * 3) 0"]
    by (simp add: mult.commute)
  then have ser: "serializeDiff changes = Inr (fromBytes ?bytes)"
    by (simp add: serializeDiff_def)
  have bound: "\<forall>d \<in> set changes. index d < 65536 \<and> value d < 256"
    using assms by (auto simp: TOTAL_PIXELS_def FRAME_WIDTH_def FRAME_HEIGHT_def)
  have "deserializeDiff (fromBytes ?bytes) = Inr (decodeRecords (take (3 * length changes) ?bytes))"
    using deserializeDiff_reads_buffer_start [of "fromBytes ?bytes" "length changes"] len
    by (simp add: fromBytes_def)
  then have "deserializeDiff (fromBytes ?bytes) = Inr changes"
    using len decodeRecords_encode [OF bound] by simp
  with ser len show ?thesis by simp
qed

theorem serializeDiff_roundtrip_witness:
  "serializeDiff [\<lparr>index = 42, value = 200\<rparr>, \<lparr>index = 25599, value = 0\<rparr>]
     = Inr (fromBytes [42, 0, 200, 255, 99, 0])
   \<and> deserializeDiff (fromBytes [42, 0, 200, 255, 99, 0])
     = Inr [\<lparr>index = 42, value = 200\<rparr>, \<lparr>index = 25599, value = 0\<rparr>]"
proof -
  let ?ds = "[\<lparr>index = 42, value = 200\<rparr>, \<lparr>index = 25599, value = 0\<rparr>]"
  have b: "\<forall>d \<in> set ?ds. index d < TOTAL_PIXELS \<and> value d \<le> 255"
    by (simp add: TOTAL_PIXELS_def FRAME_WIDTH_def FRAME_HEIGHT_def)
  have e: "concat (map encodeRecord ?ds) = [42, 0, 200, 255, 99, 0]"
    by (simp add: encodeRecord_def)
  show ?thesis
    using serializeDiff_roundtrip [OF b] unfolding e by simp
qed

text \<open>
  \<^verbatim>\<open>deserializeDiff\<close> has no length check of its own; a read past the end of the
  buffer raises. For an array on a buffer of its own (what \<^verbatim>\<open>serializeDiff\<close> returns
  and what the modal playback passes) that is a failure exactly when the length is not a
  multiple of 3 (the DataView's \<^verbatim>\<open>RangeError\<close>), and otherwise all the records of the
  bytes are returned, three bytes each, in order.
\<close>

lemma deserializeDiff_own_buffer:
  "deserializeDiff (fromBytes bytes) =
     (if length bytes mod 3 = 0 then Inr (decodeRecords bytes) else Inl RangeError)"
proof (cases "length bytes mod 3 = 0")
  case True
  then obtain k where k: "length bytes = 3 * k" by auto
  show ?thesis
    using deserializeDiff_reads_buffer_start [of "fromBytes bytes" k] k
    by (simp add: fromBytes_def)
next
  case False
  then show ?thesis
    using deserializeDiff_loop_fail [of "fromBytes bytes" 0 "[]"]
    by (simp add: deserializeDiff_def fromBytes_def)
qed

text \<open>
  Claim C6 does not hold of the code. The grid playback passes \<^verbatim>\<open>deserializeDiff\<close> a
  window on the decompressed blob, and the DataView is made from the window's buffer
  with no offset and no length, so the reads are bounded by the blob and not by the
  window. With \<^verbatim>\<open>diffLengths = [4, 2]\<close> and a blob of 6 bytes the window of delta 0
  shows 4 bytes, which is not a multiple of 3, and \<^verbatim>\<open>deserializeDiff\<close> returns two
  records without any failure, the second read from beyond the window. The same 4 bytes
  on a buffer of their own are refused.
\<close>

theorem deserializeDiff_window_no_failure:
  "elements (sliceDiff [1, 0, 10, 2, 0, 20] [4, 2] 0) = [1, 0, 10, 2]
   \<and> byteLength (sliceDiff [1, 0, 10, 2, 0, 20] [4, 2] 0) mod 3 \<noteq> 0
   \<and> deserializeDiff (sliceDiff [1, 0, 10, 2, 0, 20] [4, 2] 0)
       = Inr [\<lparr>index = 1, value = 10\<rparr>, \<lparr>index = 2, value = 20\<rparr>]
   \<and> deserializeDiff (fromBytes [1, 0, 10, 2]) = Inl RangeError"
  using deserializeDiff_reads_buffer_start [of "sliceDiff [1, 0, 10, 2, 0, 20] [4, 2] 0" 2]
    deserializeDiff_own_buffer [of "[1, 0, 10, 2]"]
  by (simp add: sliceDiff_def subarray_def fromBytes_def elements_def)

text \<open>
  What the grid playback decodes for delta \<open>i\<close> of a well-formed clip (whole records,
  lengths within the blob): the first \<open>lengths ! i\<close> bytes of the blob, whatever the
  start of the window.
\<close>

lemma sliceDiff_decodes_blob_start:
  assumes "i < length lengths" and "lengths ! i = 3 * k"
    and "sum_list (take i lengths) + lengths ! i \<le> length blob"
  shows "deserializeDiff (sliceDiff blob lengths i) = Inr (decodeRecords (take (lengths ! i) blob))"
proof -
  let ?u = "sliceDiff blob lengths i"
  have b: "buffer ?u = blob" and l: "byteLength ?u = 3 * k"
    using assms(2,3) by (simp_all add: sliceDiff_def subarray_def fromBytes_def Let_def)
  have "deserializeDiff ?u = Inr (decodeRecords (take (3 * k) (buffer ?u)))"
    using assms(2,3) l by (intro deserializeDiff_reads_buffer_start) (simp_all add: b)
  then show ?thesis using assms(2) b by simp
qed

text \<open>
  Claim C1 does not hold of the code. With \<^verbatim>\<open>diffLengths = [3, 6]\<close> and a blob of 9
  bytes, the window that \<^verbatim>\<open>renderGridVideoFrame\<close> cuts for delta 1 shows bytes [3,9),
  but \<^verbatim>\<open>deserializeDiff\<close> reads the window's buffer from byte 0: the records it returns
  and the render applies are those of bytes [0,6), not those of bytes [3,9).
\<close>

theorem renderGridVideoFrame_slice_bug:
  "elements (sliceDiff [1, 0, 10, 2, 0, 20, 3, 0, 30] [3, 6] 1) = [2, 0, 20, 3, 0, 30]
   \<and> deserializeDiff (sliceDiff [1, 0, 10, 2, 0, 20, 3, 0, 30] [3, 6] 1)
       = Inr [\<lparr>index = 1, value = 10\<rparr>, \<lparr>index = 2, value = 20\<rparr>]
   \<and> decodeRecords [2, 0, 20, 3, 0, 30]
       = [\<lparr>index = 2, value = 20\<rparr>, \<lparr>index = 3, value = 30\<rparr>]
   \<and> snd (renderGridVideoFrame inflate bugPlayer) = Image [0, 10, 20, 0, 0]
   \<and> applyDiffs (decodeRecords [2, 0, 20, 3, 0, 30]) [0, 10, 0, 0, 0] = [0, 10, 20, 30, 0]"
proof -
  have d: "deserializeDiff (sliceDiff [1, 0, 10, 2, 0, 20, 3, 0, 30] [3, 6] 1)
       = Inr [\<lparr>index = 1, value = 10\<rparr>, \<lparr>index = 2, value = 20\<rparr>]"
    using deserializeDiff_reads_buffer_start [of "sliceDiff [1, 0, 10, 2, 0, 20, 3, 0, 30] [3, 6] 1" 2]
    by (simp add: sliceDiff_def subarray_def fromBytes_def)
  have r: "snd (renderGridVideoFrame inflate bugPlayer) = Image [0, 10, 20, 0, 0]"
    using d by (simp add: renderGridVideoFrame_def renderFrame_def bugPlayer_def Let_def)
  show ?thesis
    using d r by (simp add: sliceDiff_def subarray_def fromBytes_def elements_def)
qed

section \<open>Properties of the reconstruction paths\<close>

lemma length_applyDiffs: "length (applyDiffs ds pixels) = length pixels"
  by (induction ds arbitrary: pixels) simp_all

lemma applyDiffs_skips: 
  "applyDiffs ds pixels = applyDiffs (filter (\<lambda>d. index d < length pixels) ds) pixels"
proof (induction ds arbitrary: pixels)
  case Nil
  then show ?case by simp
next
  case (Cons d ds)
  show ?case
  proof (cases "index d < length pixels")
    case True
    then show ?thesis using Cons.IH [of "pixels[index d := of_nat (value d)]"] by simp
  next
    case False
    then show ?thesis using Cons.IH [of pixels] by simp
  qed
qed

lemma prepareForPlayback_currentP:
  "currentPFramePixelData (prepareForPlayback inflate p) = currentPFramePixelData p"
  "currentFrameIndex (prepareForPlayback inflate p) = currentFrameIndex p"
  "diffLengths (prepareForPlayback inflate p) = diffLengths p"
  "totalFrames (prepareForPlayback inflate p) = totalFrames p"
  by (simp_all add: prepareForPlayback_def Let_def)

lemma renderFrame_length2:
  "currentFrameIndex player \<noteq> 0 \<Longrightarrow>
   (case currentPFramePixelData player of
      None \<Rightarrow> reconstructedIBaseFrameData player | Some p \<Rightarrow> Some p) = Some previous \<Longrightarrow>
   renderFrame player = (player', Image out) \<Longrightarrow>
   length out = length previous \<and> currentPFramePixelData player' = Some out"
  by (auto simp: renderFrame_def length_applyDiffs split: option.splits if_splits sum.splits)

lemma prepareForPlayback_base:
  "reconstructedIBaseFrameData (prepareForPlayback inflate p) =
     (if firstFrameCompressed p \<noteq> [] \<and> reconstructedIBaseFrameData p = None
      then inflateHex inflate (firstFrameCompressed p) else reconstructedIBaseFrameData p)"
  "firstFrameCompressed (prepareForPlayback inflate p) = firstFrameCompressed p"
  by (simp_all add: prepareForPlayback_def Let_def)

lemma gridPrevious_prepareForPlayback:
  "gridPrevious inflate p = Some previous \<Longrightarrow>
   (case currentPFramePixelData (prepareForPlayback inflate p) of
      None \<Rightarrow> reconstructedIBaseFrameData (prepareForPlayback inflate p)
    | Some x \<Rightarrow> Some x) = Some previous"
  by (auto simp: gridPrevious_def prepareForPlayback_base prepareForPlayback_currentP
        split: option.splits if_splits)

lemma renderGridVideoFrame_length2:
  assumes i: "currentFrameIndex player \<noteq> 0"
    and g: "gridPrevious inflate player = Some previous"
    and r: "renderGridVideoFrame inflate player = (player', Image out)"
  shows "length out = length previous \<and> currentPFramePixelData player' = Some out"
proof -
  define p1 where "p1 =
    (if reconstructedIBaseFrameData player = None \<and> firstFrameCompressed player \<noteq> []
     then prepareForPlayback inflate player else player)"
  define p2 where "p2 =
    (if diffLengths p1 \<noteq> [] \<and> decompressedDiffsBlob p1 = None \<and> allDiffsCompressedBlob p1 \<noteq> []
     then prepareForPlayback inflate p1 else p1)"
  have e: "renderGridVideoFrame inflate player =
     (if totalFrames player = 0 then (player, NoDraw)
      else if reconstructedIBaseFrameData player = None \<and> firstFrameCompressed player \<noteq> []
              \<and> reconstructedIBaseFrameData p1 = None
      then (p1, Label ''I-ERR'')
      else if diffLengths p1 \<noteq> [] \<and> decompressedDiffsBlob p1 = None
              \<and> allDiffsCompressedBlob p1 \<noteq> [] \<and> decompressedDiffsBlob p2 = None
      then (p2, Label ''P-ERR'')
      else renderFrame p2)"
    unfolding renderGridVideoFrame_def Let_def p1_def p2_def by (rule refl)
  have rf: "renderFrame p2 = (player', Image out)"
    using r unfolding e by (simp split: if_splits)
  have i2: "currentFrameIndex p2 \<noteq> 0"
    using i by (simp add: p1_def p2_def prepareForPlayback_currentP)
  have c1: "(case currentPFramePixelData p1 of
               None \<Rightarrow> reconstructedIBaseFrameData p1 | Some x \<Rightarrow> Some x) = Some previous"
  proof (cases "reconstructedIBaseFrameData player = None \<and> firstFrameCompressed player \<noteq> []")
    case True
    then have "p1 = prepareForPlayback inflate player" unfolding p1_def by (rule if_P)
    then show ?thesis using gridPrevious_prepareForPlayback [OF g] by (simp only:)
  next
    case False
    then have "p1 = player" unfolding p1_def by (rule if_not_P)
    then show ?thesis using g False by (auto simp: gridPrevious_def split: option.splits)
  qed
  have c2: "(case currentPFramePixelData p2 of
               None \<Rightarrow> reconstructedIBaseFrameData p2 | Some x \<Rightarrow> Some x) = Some previous"
  proof (cases "diffLengths p1 \<noteq> [] \<and> decompressedDiffsBlob p1 = None
                 \<and> allDiffsCompressedBlob p1 \<noteq> []")
    case True
    then have "p2 = prepareForPlayback inflate p1" unfolding p2_def by (rule if_P)
    then show ?thesis
      using c1
      by (auto simp: prepareForPlayback_base prepareForPlayback_currentP split: option.splits)
  next
    case False
    then have "p2 = p1" unfolding p2_def by (rule if_not_P)
    then show ?thesis using c1 by (simp only:)
  qed
  show ?thesis using renderFrame_length2 [OF i2 c2 rf] .
qed

lemma reconstruct_length2:
  "type f \<noteq> ''full'' \<Longrightarrow> modalPrevious inflate frames reference = Some base \<Longrightarrow>
   reconstructAndDrawFrame inflate frames reference f False = (r, Image out) \<Longrightarrow>
   length out = length base \<and> r = Some out"
  by (auto simp: reconstructAndDrawFrame_def modalPrevious_def length_applyDiffs
        split: if_splits option.splits sum.splits)

lemma staticStep_length:
  "type frame \<noteq> ''full'' \<Longrightarrow> staticStep inflate frame (Some temp) = Inr (Some out) \<Longrightarrow>
   length out = length temp"
  by (auto simp: staticStep_def length_applyDiffs split: if_splits option.splits sum.splits)

text \<open>
  Claim C10. Applying a delta never writes outside the raster and never changes its
  length: a record whose index is not below the raster's length has no effect (the
  result is that of the in-range records alone), and in each reconstruction path, the
  modal sequential playback (\<^verbatim>\<open>reconstructAndDrawFrame\<close> on a delta frame), the static
  preview's walk (\<open>staticStep\<close>) and the grid playback (\<^verbatim>\<open>renderGridVideoFrame\<close> on a
  delta frame), the raster that comes out has exactly the length of the raster the delta
  was applied to, and in the two playbacks it becomes the new reference.
\<close>

theorem applyDiffs_within_raster:
  "length (applyDiffs ds pixels) = length pixels
   \<and> applyDiffs ds pixels = applyDiffs (filter (\<lambda>d. index d < length pixels) ds) pixels
   \<and> (type f \<noteq> ''full'' \<and> modalPrevious inflate frames reference = Some base
        \<and> reconstructAndDrawFrame inflate frames reference f False = (r, Image out1)
      \<longrightarrow> length out1 = length base \<and> r = Some out1)
   \<and> (type frame \<noteq> ''full'' \<and> staticStep inflate frame (Some temp) = Inr (Some out2)
      \<longrightarrow> length out2 = length temp)
   \<and> (currentFrameIndex player \<noteq> 0 \<and> gridPrevious inflate player = Some previous
        \<and> renderGridVideoFrame inflate player = (player', Image out3)
      \<longrightarrow> length out3 = length previous \<and> currentPFramePixelData player' = Some out3)"
  using length_applyDiffs [of ds pixels] applyDiffs_skips [of ds pixels]
    reconstruct_length2 [of f inflate frames reference base r out1]
    staticStep_length [of frame inflate temp out2]
    renderGridVideoFrame_length2 [of player inflate previous player' out3]
  by blast

lemma exRawDiff_decoded:
  "deserializeDiff (fromBytes [1, 0, 9, 7, 0, 5]) = Inr exDiffs"
  using deserializeDiff_reads_buffer_start [of "fromBytes [1, 0, 9, 7, 0, 5]" 2]
  by (simp add: fromBytes_def exDiffs_def)

lemma exPlayer_slice:
  "deserializeDiff (sliceDiff [1, 0, 9, 7, 0, 5] [6] 0) = Inr exDiffs"
  using deserializeDiff_reads_buffer_start [of "sliceDiff [1, 0, 9, 7, 0, 5] [6] 0" 2]
  by (simp add: sliceDiff_def subarray_def fromBytes_def exDiffs_def)

theorem applyDiffs_within_raster_witness:
  "applyDiffs exDiffs [0, 0, 0] = [0, 9, 0]
   \<and> length (applyDiffs exDiffs [0, 0, 0]) = length [0 :: byte, 0, 0]
   \<and> reconstructAndDrawFrame Some [exFull, exRawDiff] (Some [0, 0, 0]) exRawDiff False
       = (Some [0, 9, 0], Image [0, 9, 0])
   \<and> staticStep Some exRawDiff (Some [0, 0, 0]) = Inr (Some [0, 9, 0])
   \<and> renderGridVideoFrame Some exPlayer
       = (exPlayer\<lparr>currentPFramePixelData := Some [0, 9, 0]\<rparr>, Image [0, 9, 0])"
proof -
  have a: "applyDiffs exDiffs [0, 0, 0] = [0, 9, 0]"
    by (simp add: exDiffs_def)
  have t: "type exRawDiff \<noteq> ''full''"
    by (simp add: exRawDiff_def)
  have m: "reconstructAndDrawFrame Some [exFull, exRawDiff] (Some [0, 0, 0]) exRawDiff False
       = (Some [0, 9, 0], Image [0, 9, 0])"
    by (simp add: reconstructAndDrawFrame_def exRawDiff_def exRawDiff_decoded a)
  have s: "staticStep Some exRawDiff (Some [0, 0, 0]) = Inr (Some [0, 9, 0])"
    by (simp add: staticStep_def exRawDiff_def exRawDiff_decoded a)
  have i: "currentFrameIndex exPlayer \<noteq> 0"
    and p: "gridPrevious Some exPlayer = Some [0, 0, 0]"
    and q: "modalPrevious Some [exFull, exRawDiff] (Some [0, 0, 0]) = Some [0, 0, 0]"
    by (simp_all add: exPlayer_def gridPrevious_def modalPrevious_def)
  have "deserializeDiff (sliceDiff [1, 0, 9, 7, 0, 5] [6] (Suc 0 - 1)) = Inr exDiffs"
    using exPlayer_slice by simp
  then have g: "renderGridVideoFrame Some exPlayer
       = (exPlayer\<lparr>currentPFramePixelData := Some [0, 9, 0]\<rparr>, Image [0, 9, 0])"
    using a by (simp add: renderGridVideoFrame_def renderFrame_def exPlayer_def Let_def)
  note T = applyDiffs_within_raster [where ds = exDiffs and pixels = "[0, 0, 0]"
        and f = exRawDiff and inflate = Some and frames = "[exFull, exRawDiff]"
        and reference = "Some [0, 0, 0]"
        and base = "[0, 0, 0]" and r = "Some [0, 9, 0]" and ?out1.0 = "[0, 9, 0]"
        and frame = exRawDiff and temp = "[0, 0, 0]" and ?out2.0 = "[0, 9, 0]"
        and player = exPlayer and previous = "[0, 0, 0]"
        and player' = "exPlayer\<lparr>currentPFramePixelData := Some [0, 9, 0]\<rparr>"
        and ?out3.0 = "[0, 9, 0]"]
  have "length (applyDiffs exDiffs [0, 0, 0]) = length [0 :: byte, 0, 0]
        \<and> length [0 :: byte, 9, 0] = length [0 :: byte, 0, 0]"
    using T t m s i p q g by blast
  then show ?thesis
    using a m s g by simp
qed

section \<open>Properties of the grid loader\<close>

lemma hexToBytes_zero: "hexToBytes ''0x0000'' = Inr [0, 0]"
  by (simp add: hexToBytes_def charCodeToBase16_def Let_def)

lemma noValidFirstFrame_empty:
  "ff = [] \<or> ff = ''0x'' \<or> hexToBytes ff = Inr [] \<Longrightarrow> noValidFirstFrame ff = Inr True"
  by (auto simp: noValidFirstFrame_def)

text \<open>
  Claim C9, as stated, fails for an all-zero \<^verbatim>\<open>firstFrame\<close>: the test looks at the
  length of the decoded bytes only. A clip whose \<^verbatim>\<open>firstFrame\<close> is the two zero bytes
  \<^verbatim>\<open>0x0000\<close> takes the first grid slot in place of the noise player.
\<close>

theorem loadClips_all_zero_counterexample:
  "loadClips Some 1 [(''0xab'', 7, 1700000000, Some zeroClip)] [NoisePlayer] 0
     = ([GridPlayer (prepareForPlayback Some
           (newGridPlayerData zeroClip ''0xab'' 7 1700000000))], 1)
   \<and> reconstructedIBaseFrameData
         (prepareForPlayback Some (newGridPlayerData zeroClip ''0xab'' 7 1700000000))
       = Some [0, 0]"
  by (simp add: noValidFirstFrame_def zeroClip_def hexToBytes_zero prepareForPlayback_def
        newGridPlayerData_def inflateHex_def Let_def)

text \<open>
  Claim C9, amended. A clip whose \<^verbatim>\<open>firstFrame\<close> is empty (the empty string,
  \<^verbatim>\<open>'0x'\<close>, or a string that decodes to no bytes) is left out of the grid: the loop goes
  on as if the clip were not in the list, so its slot keeps the noise player (or goes to
  the next clip) and it is not counted. Any other \<^verbatim>\<open>firstFrame\<close> that decodes, an
  all-zero one included, replaces the noise player of the next free slot.
\<close>

theorem loadClips_skips_empty_firstFrame:
  "(firstFrame c = [] \<or> firstFrame c = ''0x'' \<or> hexToBytes (firstFrame c) = Inr []
      \<longrightarrow> loadClips inflate totalCells ((u, f, ts, Some c) # rest) players loaded
          = loadClips inflate totalCells rest players loaded)
   \<and> (noValidFirstFrame (firstFrame c) = Inr False \<and> loaded < totalCells
        \<and> loaded < length players \<and> players ! loaded = NoisePlayer
      \<longrightarrow> loadClips inflate totalCells ((u, f, ts, Some c) # rest) players loaded
          = loadClips inflate totalCells rest
              (players[loaded := GridPlayer (prepareForPlayback inflate
                                   (newGridPlayerData c u f ts))])
              (loaded + 1))"
proof (intro conjI impI)
  assume e: "firstFrame c = [] \<or> firstFrame c = ''0x'' \<or> hexToBytes (firstFrame c) = Inr []"
  show "loadClips inflate totalCells ((u, f, ts, Some c) # rest) players loaded
          = loadClips inflate totalCells rest players loaded"
  proof (cases "loaded \<ge> totalCells")
    case True
    then show ?thesis by (cases rest) auto
  next
    case False
    then show ?thesis using noValidFirstFrame_empty [OF e] by simp
  qed
next
  assume "noValidFirstFrame (firstFrame c) = Inr False \<and> loaded < totalCells
        \<and> loaded < length players \<and> players ! loaded = NoisePlayer"
  then show "loadClips inflate totalCells ((u, f, ts, Some c) # rest) players loaded
          = loadClips inflate totalCells rest
              (players[loaded := GridPlayer (prepareForPlayback inflate
                                   (newGridPlayerData c u f ts))])
              (loaded + 1)"
    by simp
qed

theorem loadClips_skips_empty_firstFrame_witness:
  "loadClips Some 2 [(''0xcd'', 8, 1700000001, Some emptyClip),
                     (''0xab'', 7, 1700000000, Some zeroClip)] [NoisePlayer, NoisePlayer] 0
     = ([GridPlayer (prepareForPlayback Some
           (newGridPlayerData zeroClip ''0xab'' 7 1700000000)), NoisePlayer], 1)"
proof -
  have e: "firstFrame emptyClip = ''0x''"
    by (simp add: emptyClip_def)
  have z: "noValidFirstFrame (firstFrame zeroClip) = Inr False"
    by (simp add: noValidFirstFrame_def zeroClip_def hexToBytes_zero)
  have "loadClips Some 2 [(''0xcd'', 8, 1700000001, Some emptyClip),
                     (''0xab'', 7, 1700000000, Some zeroClip)] [NoisePlayer, NoisePlayer] 0
        = loadClips Some 2 [(''0xab'', 7, 1700000000, Some zeroClip)] [NoisePlayer, NoisePlayer] 0"
    using loadClips_skips_empty_firstFrame [where c = emptyClip and inflate = Some
        and totalCells = 2 and u = "''0xcd''" and f = 8 and ts = 1700000001
        and rest = "[(''0xab'', 7, 1700000000, Some zeroClip)]"
        and players = "[NoisePlayer, NoisePlayer]" and loaded = 0] e
    by blast
  also have "\<dots> = loadClips Some 2 [] 
       ([NoisePlayer, NoisePlayer][0 := GridPlayer (prepareForPlayback Some
           (newGridPlayerData zeroClip ''0xab'' 7 1700000000))]) (0 + 1)"
    using loadClips_skips_empty_firstFrame [where c = zeroClip and inflate = Some
        and totalCells = 2 and u = "''0xab''" and f = 7 and ts = 1700000000
        and rest = "[]" and players = "[NoisePlayer, NoisePlayer]" and loaded = 0] z
    by simp
  finally show ?thesis by simp
qed

section \<open>Properties of sequential playback\<close>

lemma playbackTick_index:
  "modalFrameIndex (fst (playbackTick inflate frames s)) = 0 \<Longrightarrow>
   (modalFrameIndex s = 0 \<longrightarrow> reconstructedModalPlaybackFrame s = None) \<Longrightarrow>
   reconstructedModalPlaybackFrame (fst (playbackTick inflate frames s)) = None"
  by (auto simp: playbackTick_def Let_def split: if_splits prod.splits)

lemma modalRun_reset:
  "modalFrameIndex (modalRun inflate frames n) = 0 \<Longrightarrow>
   reconstructedModalPlaybackFrame (modalRun inflate frames n) = None"
proof (induction n)
  case 0
  then show ?case by (simp add: modalRun_def startPlayback_def)
next
  case (Suc n)
  have step: "modalRun inflate frames (Suc n)
                = fst (playbackTick inflate frames (modalRun inflate frames n))"
    by (simp add: modalRun_def)
  show ?case
    using Suc.prems Suc.IH unfolding step by (intro playbackTick_index) auto
qed

lemma playbackTick_frame0:
  assumes "snd (playbackTick inflate frames s) = Some (0, d)"
    and "modalFrameIndex s = 0 \<longrightarrow> reconstructedModalPlaybackFrame s = None"
  shows "reconstructAndDrawFrame inflate frames None (frames ! 0) False
           = (reconstructedModalPlaybackFrame (fst (playbackTick inflate frames s)), d)
         \<and> frames \<noteq> []"
  using assms
  by (auto simp: playbackTick_def Let_def split: if_splits prod.splits)

lemma playbackTick_start:
  "frames \<noteq> [] \<Longrightarrow>
   playbackTick inflate frames startPlayback =
     (\<lparr>modalFrameIndex = 1,
       reconstructedModalPlaybackFrame =
         fst (reconstructAndDrawFrame inflate frames None (frames ! 0) False),
       playbackInterval = True\<rparr>,
      Some (0, snd (reconstructAndDrawFrame inflate frames None (frames ! 0) False)))"
  by (simp add: playbackTick_def startPlayback_def Let_def split: prod.splits)

lemma prepared_prepareForPlayback: "prepared inflate (prepareForPlayback inflate p)"
  by (auto simp: prepared_def prepareForPlayback_def Let_def)

lemma prepared_sameClip: "sameClip p q \<Longrightarrow> prepared inflate q \<Longrightarrow> prepared inflate p"
  by (simp add: prepared_def sameClip_def)

lemma sameClip_refl: "sameClip p p"
  by (simp add: sameClip_def)

lemma sameClip_trans: "sameClip p q \<Longrightarrow> sameClip q r \<Longrightarrow> sameClip p r"
  by (simp add: sameClip_def)

lemma frame0Drawn_sameClip: "sameClip p q \<Longrightarrow> frame0Drawn p = frame0Drawn q"
  by (simp add: frame0Drawn_def sameClip_def)

lemma sameClip_prepareForPlayback:
  "prepared inflate p \<Longrightarrow> sameClip (prepareForPlayback inflate p) p"
  by (simp add: prepared_def sameClip_def prepareForPlayback_def Let_def)

lemma prepareForPlayback_playhead:
  "currentFrameIndex (prepareForPlayback inflate p) = currentFrameIndex p
   \<and> currentPFramePixelData (prepareForPlayback inflate p) = currentPFramePixelData p"
  by (simp add: prepareForPlayback_def Let_def)

lemma sameClip_renderFrame: "sameClip (fst (renderFrame p)) p"
  by (simp add: renderFrame_def sameClip_def split: option.splits sum.splits)

lemma renderGridVideoFrame_Image:
  assumes "snd (renderGridVideoFrame inflate p) = Image b"
  shows "\<exists>q. renderGridVideoFrame inflate p = renderFrame q
             \<and> currentFrameIndex q = currentFrameIndex p"
proof -
  define p1 where "p1 =
    (if reconstructedIBaseFrameData p = None \<and> firstFrameCompressed p \<noteq> []
     then prepareForPlayback inflate p else p)"
  define p2 where "p2 =
    (if diffLengths p1 \<noteq> [] \<and> decompressedDiffsBlob p1 = None \<and> allDiffsCompressedBlob p1 \<noteq> []
     then prepareForPlayback inflate p1 else p1)"
  have i: "currentFrameIndex p2 = currentFrameIndex p"
    using prepareForPlayback_playhead [of inflate p] prepareForPlayback_playhead [of inflate p1]
    by (simp add: p1_def p2_def)
  have r: "renderGridVideoFrame inflate p =
     (if totalFrames p = 0 then (p, NoDraw)
      else if reconstructedIBaseFrameData p = None \<and> firstFrameCompressed p \<noteq> []
              \<and> reconstructedIBaseFrameData p1 = None
      then (p1, Label ''I-ERR'')
      else if diffLengths p1 \<noteq> [] \<and> decompressedDiffsBlob p1 = None
              \<and> allDiffsCompressedBlob p1 \<noteq> [] \<and> decompressedDiffsBlob p2 = None
      then (p2, Label ''P-ERR'')
      else renderFrame p2)"
    unfolding renderGridVideoFrame_def Let_def p1_def p2_def by (rule refl)
  have "renderGridVideoFrame inflate p = renderFrame p2"
  proof (cases "totalFrames p = 0")
    case True
    then show ?thesis using assms by (simp add: r)
  next
    case t: False
    show ?thesis
    proof (cases "reconstructedIBaseFrameData p = None \<and> firstFrameCompressed p \<noteq> []
              \<and> reconstructedIBaseFrameData p1 = None")
      case True
      then show ?thesis using assms t by (simp add: r)
    next
      case c1: False
      show ?thesis
      proof (cases "diffLengths p1 \<noteq> [] \<and> decompressedDiffsBlob p1 = None
              \<and> allDiffsCompressedBlob p1 \<noteq> [] \<and> decompressedDiffsBlob p2 = None")
        case True
        then show ?thesis using assms t c1 by (simp add: r)
      next
        case False
        then show ?thesis using t c1 by (simp only: r if_False)
      qed
    qed
  qed
  then show ?thesis using i by blast
qed

lemma renderFrame_frame0:
  "currentFrameIndex q = 0 \<Longrightarrow> snd (renderFrame q) = Image b \<Longrightarrow>
   currentPFramePixelData (fst (renderFrame q)) = Some b"
  by (auto simp: renderFrame_def split: option.splits)

lemma renderGridVideoFrame_prepared:
  assumes "prepared inflate p"
  shows "snd (renderGridVideoFrame inflate p) =
           (if totalFrames p = 0 then NoDraw
            else if reconstructedIBaseFrameData p = None \<and> firstFrameCompressed p \<noteq> []
            then Label ''I-ERR''
            else if diffLengths p \<noteq> [] \<and> decompressedDiffsBlob p = None
                    \<and> allDiffsCompressedBlob p \<noteq> []
            then Label ''P-ERR''
            else snd (renderFrame p))"
    and "sameClip (fst (renderGridVideoFrame inflate p)) p"
proof -
  have b: "reconstructedIBaseFrameData (prepareForPlayback inflate p) = reconstructedIBaseFrameData p"
    and d: "decompressedDiffsBlob (prepareForPlayback inflate p) = decompressedDiffsBlob p"
    and l: "diffLengths (prepareForPlayback inflate p) = diffLengths p"
    and a: "allDiffsCompressedBlob (prepareForPlayback inflate p) = allDiffsCompressedBlob p"
    using sameClip_prepareForPlayback [OF assms] by (simp_all add: sameClip_def)
  show "snd (renderGridVideoFrame inflate p) =
           (if totalFrames p = 0 then NoDraw
            else if reconstructedIBaseFrameData p = None \<and> firstFrameCompressed p \<noteq> []
            then Label ''I-ERR''
            else if diffLengths p \<noteq> [] \<and> decompressedDiffsBlob p = None
                    \<and> allDiffsCompressedBlob p \<noteq> []
            then Label ''P-ERR''
            else snd (renderFrame p))"
    by (simp add: renderGridVideoFrame_def Let_def b d l a)
  show "sameClip (fst (renderGridVideoFrame inflate p)) p"
    using sameClip_prepareForPlayback [OF assms] sameClip_renderFrame [of p]
    by (simp add: renderGridVideoFrame_def Let_def b d l a sameClip_refl)
qed

lemma sameClip_gridTick:
  assumes "prepared inflate p"
  shows "sameClip (gridTick inflate p) p"
proof -
  obtain p' d where r: "renderGridVideoFrame inflate p = (p', d)"
    by (cases "renderGridVideoFrame inflate p")
  have "sameClip p' p"
    using renderGridVideoFrame_prepared(2) [OF assms] r by simp
  then show ?thesis
    using r by (cases d) (simp_all add: gridTick_def sameClip_def)
qed

lemma gridRun_sameClip:
  assumes "prepared inflate p0"
  shows "sameClip (gridRun inflate p0 n) p0"
proof (induction n)
  case 0
  then show ?case by (simp add: gridRun_def sameClip_refl)
next
  case (Suc n)
  have "prepared inflate (gridRun inflate p0 n)"
    using Suc.IH assms by (rule prepared_sameClip)
  then have "sameClip (gridTick inflate (gridRun inflate p0 n)) (gridRun inflate p0 n)"
    by (rule sameClip_gridTick)
  then show ?case using Suc.IH by (simp add: gridRun_def sameClip_trans)
qed

lemma render_frame0:
  assumes "prepared inflate p" and "currentFrameIndex p = 0"
  shows "snd (renderGridVideoFrame inflate p) = frame0Drawn p"
  using assms(2)
  by (simp add: renderGridVideoFrame_prepared(1) [OF assms(1)] frame0Drawn_def renderFrame_def
        split: option.splits)

lemma render_frame0_reference:
  assumes "prepared inflate p" and "currentFrameIndex p = 0"
    and "snd (renderGridVideoFrame inflate p) = Image b"
  shows "reconstructedIBaseFrameData p = Some b
         \<and> currentPFramePixelData (fst (renderGridVideoFrame inflate p)) = Some b"
proof -
  obtain q where q: "renderGridVideoFrame inflate p = renderFrame q"
      "currentFrameIndex q = currentFrameIndex p"
    using renderGridVideoFrame_Image [OF assms(3)] by blast
  have c: "currentPFramePixelData (fst (renderGridVideoFrame inflate p)) = Some b"
    using renderFrame_frame0 [of q b] q assms(2,3) by simp
  have "frame0Drawn p = Image b"
    using render_frame0 [OF assms(1,2)] assms(3) by simp
  then have "reconstructedIBaseFrameData p = Some b"
    by (simp add: frame0Drawn_def split: if_splits option.splits)
  then show ?thesis
    using c by simp
qed

text \<open>
  Claim C4. Sequential playback shows frame 0 afresh on every loop. In the modal
  playback, whenever a tick of the timer shows frame 0, after any number of earlier
  ticks, the frame is reconstructed with the reference frame unset (the wrap resets it
  before the decode), so what is drawn and the reference frame left behind are those of
  the very first tick. In the grid playback of a clip, as the loader creates and prepares
  it, whenever the frame index is back at 0 the render draws what the first render drew;
  when that is a raster it is the decompressed first frame, and the reference for the
  next delta is set to it, whatever the previous loop left there.
\<close>

theorem playback_frame0_fresh:
  "(snd (playbackTick inflate recordedFrames (modalRun inflate recordedFrames n)) = Some (0, d)
      \<longrightarrow> reconstructAndDrawFrame inflate recordedFrames None (recordedFrames ! 0) False
            = (reconstructedModalPlaybackFrame
                 (fst (playbackTick inflate recordedFrames (modalRun inflate recordedFrames n))), d)
          \<and> playbackTick inflate recordedFrames startPlayback
            = (\<lparr>modalFrameIndex = 1,
                 reconstructedModalPlaybackFrame = reconstructedModalPlaybackFrame
                   (fst (playbackTick inflate recordedFrames (modalRun inflate recordedFrames n))),
                 playbackInterval = True\<rparr>, Some (0, d)))
   \<and> (currentFrameIndex
          (gridRun inflate (prepareForPlayback inflate (newGridPlayerData clip u f ts)) n) = 0
      \<longrightarrow> snd (renderGridVideoFrame inflate
                 (gridRun inflate (prepareForPlayback inflate (newGridPlayerData clip u f ts)) n))
            = snd (renderGridVideoFrame inflate
                 (prepareForPlayback inflate (newGridPlayerData clip u f ts)))
          \<and> (snd (renderGridVideoFrame inflate
                 (gridRun inflate (prepareForPlayback inflate (newGridPlayerData clip u f ts)) n))
                = Image b
             \<longrightarrow> reconstructedIBaseFrameData
                   (prepareForPlayback inflate (newGridPlayerData clip u f ts)) = Some b
                 \<and> currentPFramePixelData (fst (renderGridVideoFrame inflate
                     (gridRun inflate (prepareForPlayback inflate (newGridPlayerData clip u f ts))
                        n))) = Some b))"
proof (intro conjI impI)
  let ?s = "modalRun inflate recordedFrames n"
  assume t: "snd (playbackTick inflate recordedFrames ?s) = Some (0, d)"
  have reset: "modalFrameIndex ?s = 0 \<longrightarrow> reconstructedModalPlaybackFrame ?s = None"
    using modalRun_reset [of inflate recordedFrames n] by simp
  have f: "reconstructAndDrawFrame inflate recordedFrames None (recordedFrames ! 0) False
            = (reconstructedModalPlaybackFrame (fst (playbackTick inflate recordedFrames ?s)), d)"
    and ne: "recordedFrames \<noteq> []"
    using playbackTick_frame0 [OF t reset] by simp_all
  show "reconstructAndDrawFrame inflate recordedFrames None (recordedFrames ! 0) False
            = (reconstructedModalPlaybackFrame (fst (playbackTick inflate recordedFrames ?s)), d)"
    by (rule f)
  show "playbackTick inflate recordedFrames startPlayback
            = (\<lparr>modalFrameIndex = 1,
                 reconstructedModalPlaybackFrame = reconstructedModalPlaybackFrame
                   (fst (playbackTick inflate recordedFrames ?s)),
                 playbackInterval = True\<rparr>, Some (0, d))"
    using playbackTick_start [OF ne] by (simp add: f)
next
  let ?start = "prepareForPlayback inflate (newGridPlayerData clip u f ts)"
  let ?run = "gridRun inflate ?start n"
  assume i: "currentFrameIndex ?run = 0"
  have p0: "prepared inflate ?start"
    by (rule prepared_prepareForPlayback)
  have i0: "currentFrameIndex ?start = 0"
    using prepareForPlayback_playhead [of inflate "newGridPlayerData clip u f ts"]
    by (simp add: newGridPlayerData_def)
  have same: "sameClip ?run ?start"
    using p0 by (rule gridRun_sameClip)
  have p: "prepared inflate ?run"
    by (rule prepared_sameClip [OF same p0])
  show eq: "snd (renderGridVideoFrame inflate ?run) = snd (renderGridVideoFrame inflate ?start)"
    using render_frame0 [OF p i] render_frame0 [OF p0 i0] frame0Drawn_sameClip [OF same]
    by simp
  assume img: "snd (renderGridVideoFrame inflate ?run) = Image b"
  have "reconstructedIBaseFrameData ?run = Some b"
    using render_frame0_reference [OF p i img] by simp
  then show "reconstructedIBaseFrameData ?start = Some b"
    using same by (simp add: sameClip_def)
  show "currentPFramePixelData (fst (renderGridVideoFrame inflate ?run)) = Some b"
    using render_frame0_reference [OF p i img] by simp
qed

lemma exFrames_tick1:
  "playbackTick Some [exFull, exRawDiff] startPlayback
     = (\<lparr>modalFrameIndex = 1, reconstructedModalPlaybackFrame = Some [0, 0, 0],
         playbackInterval = True\<rparr>, Some (0, Image [0, 0, 0]))"
  by (simp add: playbackTick_def startPlayback_def reconstructAndDrawFrame_def exFull_def Let_def)

lemma exFrames_tick2:
  "playbackTick Some [exFull, exRawDiff]
       \<lparr>modalFrameIndex = 1, reconstructedModalPlaybackFrame = Some [0, 0, 0],
         playbackInterval = True\<rparr>
     = (\<lparr>modalFrameIndex = 2, reconstructedModalPlaybackFrame = Some [0, 9, 0],
         playbackInterval = True\<rparr>, Some (1, Image [0, 9, 0]))"
  by (simp add: playbackTick_def reconstructAndDrawFrame_def exRawDiff_def exRawDiff_decoded
        exDiffs_def Let_def)

lemma exFrames_tick3:
  "playbackTick Some [exFull, exRawDiff]
       \<lparr>modalFrameIndex = 2, reconstructedModalPlaybackFrame = Some [0, 9, 0],
         playbackInterval = True\<rparr>
     = (\<lparr>modalFrameIndex = 1, reconstructedModalPlaybackFrame = Some [0, 0, 0],
         playbackInterval = True\<rparr>, Some (0, Image [0, 0, 0]))"
  by (simp add: playbackTick_def reconstructAndDrawFrame_def exFull_def Let_def)

lemma exFrames_run2:
  "modalRun Some [exFull, exRawDiff] 2
     = \<lparr>modalFrameIndex = 2, reconstructedModalPlaybackFrame = Some [0, 9, 0],
        playbackInterval = True\<rparr>"
proof -
  have "modalRun Some [exFull, exRawDiff] 2
          = fst (playbackTick Some [exFull, exRawDiff]
                  (fst (playbackTick Some [exFull, exRawDiff] startPlayback)))"
    by (simp add: modalRun_def numeral_2_eq_2)
  then show ?thesis
    by (simp only: exFrames_tick1 exFrames_tick2 fst_conv)
qed

lemma exClip_prepared:
  "prepareForPlayback Some (newGridPlayerData exClip ''0xab'' 1 2)
     = exPlayer\<lparr>currentFrameIndex := 0, currentPFramePixelData := None\<rparr>"
  by (simp add: prepareForPlayback_def newGridPlayerData_def exClip_def exPlayer_def
        inflateHex_def hexToBytes_def charCodeToBase16_def Let_def)

lemma exClip_tick1:
  "gridTick Some (exPlayer\<lparr>currentFrameIndex := 0, currentPFramePixelData := None\<rparr>) = exPlayer"
  by (simp add: gridTick_def renderGridVideoFrame_def renderFrame_def exPlayer_def Let_def)

lemma exClip_tick2:
  "gridTick Some exPlayer
     = exPlayer\<lparr>currentFrameIndex := 0, currentPFramePixelData := Some [0, 9, 0]\<rparr>"
proof -
  have "deserializeDiff (sliceDiff [1, 0, 9, 7, 0, 5] [6] (Suc 0 - 1)) = Inr exDiffs"
    using exPlayer_slice by simp
  then show ?thesis
    by (simp add: gridTick_def renderGridVideoFrame_def renderFrame_def exPlayer_def exDiffs_def
          Let_def)
qed

lemma exClip_run2:
  "gridRun Some (prepareForPlayback Some (newGridPlayerData exClip ''0xab'' 1 2)) 2
     = exPlayer\<lparr>currentFrameIndex := 0, currentPFramePixelData := Some [0, 9, 0]\<rparr>"
proof -
  have "gridRun Some (prepareForPlayback Some (newGridPlayerData exClip ''0xab'' 1 2)) 2
          = gridTick Some (gridTick Some
              (prepareForPlayback Some (newGridPlayerData exClip ''0xab'' 1 2)))"
    by (simp add: gridRun_def numeral_2_eq_2)
  then show ?thesis
    by (simp only: exClip_prepared exClip_tick1 exClip_tick2)
qed

theorem playback_frame0_fresh_witness:
  "reconstructedModalPlaybackFrame (modalRun Some [exFull, exRawDiff] 2) = Some [0, 9, 0]
   \<and> playbackTick Some [exFull, exRawDiff] (modalRun Some [exFull, exRawDiff] 2)
       = (\<lparr>modalFrameIndex = 1, reconstructedModalPlaybackFrame = Some [0, 0, 0],
           playbackInterval = True\<rparr>, Some (0, Image [0, 0, 0]))
   \<and> playbackTick Some [exFull, exRawDiff] startPlayback
       = (\<lparr>modalFrameIndex = 1, reconstructedModalPlaybackFrame = Some [0, 0, 0],
           playbackInterval = True\<rparr>, Some (0, Image [0, 0, 0]))
   \<and> currentPFramePixelData
         (gridRun Some (prepareForPlayback Some (newGridPlayerData exClip ''0xab'' 1 2)) 2)
       = Some [0, 9, 0]
   \<and> currentFrameIndex
         (gridRun Some (prepareForPlayback Some (newGridPlayerData exClip ''0xab'' 1 2)) 2) = 0
   \<and> snd (renderGridVideoFrame Some
         (gridRun Some (prepareForPlayback Some (newGridPlayerData exClip ''0xab'' 1 2)) 2))
       = Image [0, 0, 0]
   \<and> currentPFramePixelData (fst (renderGridVideoFrame Some
         (gridRun Some (prepareForPlayback Some (newGridPlayerData exClip ''0xab'' 1 2)) 2)))
       = Some [0, 0, 0]"
proof -
  note T = playback_frame0_fresh [where inflate = Some and recordedFrames = "[exFull, exRawDiff]"
      and n = 2 and d = "Image [0, 0, 0]" and clip = exClip and u = "''0xab''" and f = 1
      and ts = 2 and b = "[0, 0, 0]"]
  have m: "snd (playbackTick Some [exFull, exRawDiff] (modalRun Some [exFull, exRawDiff] 2))
             = Some (0, Image [0, 0, 0])"
    by (simp only: exFrames_run2 exFrames_tick3 snd_conv)
  have i: "currentFrameIndex
         (gridRun Some (prepareForPlayback Some (newGridPlayerData exClip ''0xab'' 1 2)) 2) = 0"
    by (simp only: exClip_run2) simp
  have r: "snd (renderGridVideoFrame Some
         (gridRun Some (prepareForPlayback Some (newGridPlayerData exClip ''0xab'' 1 2)) 2))
       = Image [0, 0, 0]"
    by (simp only: exClip_run2)
       (simp add: renderGridVideoFrame_def renderFrame_def exPlayer_def Let_def)
  have k1: "reconstructedModalPlaybackFrame (modalRun Some [exFull, exRawDiff] 2) = Some [0, 9, 0]"
    by (simp only: exFrames_run2) simp
  have k2: "playbackTick Some [exFull, exRawDiff] (modalRun Some [exFull, exRawDiff] 2)
       = (\<lparr>modalFrameIndex = 1, reconstructedModalPlaybackFrame = Some [0, 0, 0],
           playbackInterval = True\<rparr>, Some (0, Image [0, 0, 0]))"
    by (simp only: exFrames_run2 exFrames_tick3)
  have "playbackTick Some [exFull, exRawDiff] startPlayback
          = (\<lparr>modalFrameIndex = 1,
               reconstructedModalPlaybackFrame = reconstructedModalPlaybackFrame
                 (fst (playbackTick Some [exFull, exRawDiff]
                        (modalRun Some [exFull, exRawDiff] 2))),
               playbackInterval = True\<rparr>, Some (0, Image [0, 0, 0]))"
    using T m by blast
  then have k3: "playbackTick Some [exFull, exRawDiff] startPlayback
       = (\<lparr>modalFrameIndex = 1, reconstructedModalPlaybackFrame = Some [0, 0, 0],
           playbackInterval = True\<rparr>, Some (0, Image [0, 0, 0]))"
    by (simp only: k2 fst_conv ModalPlayback.simps)
  have k4: "currentPFramePixelData
         (gridRun Some (prepareForPlayback Some (newGridPlayerData exClip ''0xab'' 1 2)) 2)
       = Some [0, 9, 0]"
    by (simp only: exClip_run2) simp
  have k7: "currentPFramePixelData (fst (renderGridVideoFrame Some
         (gridRun Some (prepareForPlayback Some (newGridPlayerData exClip ''0xab'' 1 2)) 2)))
       = Some [0, 0, 0]"
    using T i r by blast
  show ?thesis
    by (intro conjI) (rule k1 k2 k3 k4 i r k7)+
qed

section \<open>Properties of the log cache worker\<close>

subsection \<open>Signatures and identities\<close>

text \<open>
  The signature string of a log determines its \<open>(transactionHash, logIndex)\<close>: the
  digits of the index hold no dash, so the last dash of the signature separates the two.
\<close>

lemma showNat_digits: "c \<in> set (showNat n) \<Longrightarrow> 48 \<le> (of_char c :: nat) \<and> (of_char c :: nat) \<le> 57"
proof (induction n rule: showNat.induct)
  case (1 n)
  show ?case
  proof (cases "n < 10")
    case True
    then show ?thesis using "1.prems" by (subst (asm) showNat.simps) auto
  next
    case False
    have m: "n mod 10 < 10" by simp
    from False "1.prems" have "c \<in> set (showNat (n div 10)) \<or> c = char_of (48 + n mod 10)"
      by (subst (asm) showNat.simps) auto
    then show ?thesis
    proof
      assume "c \<in> set (showNat (n div 10))"
      then show ?thesis using "1.IH" False by simp
    next
      assume "c = char_of (48 + n mod 10)"
      then show ?thesis using m by (simp add: of_char_of)
    qed
  qed
qed

lemma showNat_nonempty: "showNat n \<noteq> []"
  by (subst showNat.simps) simp

lemma digit_inj: "a < 10 \<Longrightarrow> b < 10 \<Longrightarrow> char_of (48 + a) = char_of (48 + b) \<Longrightarrow> (a :: nat) = b"
proof -
  assume a: "a < 10" and b: "b < 10" and e: "char_of (48 + a) = char_of (48 + b)"
  have "(of_char (char_of (48 + a)) :: nat) = of_char (char_of (48 + b))"
    using e by simp
  then show "a = b" using a b by (simp add: of_char_of)
qed

lemma showNat_inj: "showNat n = showNat m \<Longrightarrow> n = m"
proof (induction n arbitrary: m rule: showNat.induct)
  case (1 n)
  show ?case
  proof (cases "n < 10")
    case n: True
    show ?thesis
    proof (cases "m < 10")
      case True
      have "showNat n = [char_of (48 + n)]"
        using n by (subst showNat.simps) simp
      moreover have "showNat m = [char_of (48 + m)]"
        using True by (subst showNat.simps) simp
      ultimately have "char_of (48 + n) = char_of (48 + m)"
        using "1.prems" by simp
      then show ?thesis using n True by (intro digit_inj)
    next
      case False
      have "showNat n = [char_of (48 + n)]"
        using n by (subst showNat.simps) simp
      moreover have "showNat m = showNat (m div 10) @ [char_of (48 + m mod 10)]"
        using False by (subst showNat.simps) simp
      ultimately show ?thesis
        using "1.prems" showNat_nonempty [of "m div 10"] by simp
    qed
  next
    case n: False
    have sn: "showNat n = showNat (n div 10) @ [char_of (48 + n mod 10)]"
      using n by (subst showNat.simps) simp
    show ?thesis
    proof (cases "m < 10")
      case True
      have "showNat m = [char_of (48 + m)]"
        using True by (subst showNat.simps) simp
      then show ?thesis
        using "1.prems" sn showNat_nonempty [of "n div 10"] by simp
    next
      case False
      have sm: "showNat m = showNat (m div 10) @ [char_of (48 + m mod 10)]"
        using False by (subst showNat.simps) simp
      have "showNat (n div 10) = showNat (m div 10)"
        and d: "char_of (48 + n mod 10) = char_of (48 + m mod 10)"
        using "1.prems" sn sm by simp_all
      then have "n div 10 = m div 10"
        using "1.IH" n by simp
      moreover have "n mod 10 = m mod 10"
        using d by (intro digit_inj) simp_all
      ultimately show ?thesis
        by (metis div_mult_mod_eq)
    qed
  qed
qed

lemma takeWhile_until: "c \<notin> set xs \<Longrightarrow> takeWhile (\<lambda>x. x \<noteq> c) (xs @ c # ys) = xs"
  by (induction xs) auto

lemma split_at_last_separator:
  assumes "c \<notin> set ds" and "c \<notin> set ds'" and "h @ c # ds = h' @ c # ds'"
  shows "h = h' \<and> ds = ds'"
proof -
  have "rev ds @ c # rev h = rev ds' @ c # rev h'"
    using arg_cong [OF assms(3), of rev] by simp
  then have "takeWhile (\<lambda>x. x \<noteq> c) (rev ds @ c # rev h)
               = takeWhile (\<lambda>x. x \<noteq> c) (rev ds' @ c # rev h')"
    by simp
  moreover have "takeWhile (\<lambda>x. x \<noteq> c) (rev ds @ c # rev h) = rev ds"
    using assms(1) by (intro takeWhile_until) simp
  moreover have "takeWhile (\<lambda>x. x \<noteq> c) (rev ds' @ c # rev h') = rev ds'"
    using assms(2) by (intro takeWhile_until) simp
  ultimately have "ds = ds'" by simp
  then show ?thesis using assms(3) by simp
qed

lemma logSignature_identity: "logSignature a = logSignature b \<longleftrightarrow> identity a = identity b"
proof
  assume e: "logSignature a = logSignature b"
  have no_dash: "\<And>n. CHR ''-'' \<notin> set (showNat n)"
  proof
    fix n assume "CHR ''-'' \<in> set (showNat n)"
    then have "48 \<le> (of_char CHR ''-'' :: nat)" using showNat_digits by blast
    then show False by simp
  qed
  have "transactionHash a = transactionHash b \<and> showNat (logIndex a) = showNat (logIndex b)"
    using e no_dash by (intro split_at_last_separator [of "CHR ''-''"]) (simp_all add: logSignature_def)
  then show "identity a = identity b"
    using showNat_inj by (simp add: identity_def)
next
  assume "identity a = identity b"
  then show "logSignature a = logSignature b"
    by (simp add: identity_def logSignature_def)
qed

subsection \<open>The stable sort\<close>

lemma mset_insort_js: "mset (insort_js cmp x xs) = add_mset x (mset xs)"
  by (induction xs) simp_all

lemma set_insort_js: "set (insort_js cmp x xs) = insert x (set xs)"
  by (induction xs) auto

lemma mset_sort_js: "mset (sort_js cmp xs) = mset xs"
  by (induction xs) (simp_all add: sort_js_def mset_insort_js)

lemma set_sort_js: "set (sort_js cmp xs) = set xs"
  using mset_sort_js [of cmp xs] by (metis set_mset_mset)

lemma sorted_insort_js:
  assumes total: "\<And>a b. a \<in> A \<Longrightarrow> b \<in> A \<Longrightarrow> cmp a b \<le> 0 \<or> cmp b a \<le> 0"
    and trans: "\<And>a b c. a \<in> A \<Longrightarrow> b \<in> A \<Longrightarrow> c \<in> A \<Longrightarrow>
                  cmp a b \<le> 0 \<Longrightarrow> cmp b c \<le> 0 \<Longrightarrow> cmp a c \<le> 0"
  shows "x \<in> A \<Longrightarrow> set xs \<subseteq> A \<Longrightarrow> sorted_wrt (\<lambda>a b. cmp a b \<le> 0) xs \<Longrightarrow>
         sorted_wrt (\<lambda>a b. cmp a b \<le> 0) (insort_js cmp x xs)"
proof (induction xs)
  case Nil
  then show ?case by simp
next
  case (Cons y ys)
  show ?case
  proof (cases "cmp x y \<le> 0")
    case True
    have "\<forall>z \<in> set ys. cmp x z \<le> 0"
    proof
      fix z assume z: "z \<in> set ys"
      then have "cmp y z \<le> 0" using Cons.prems(3) by simp
      then show "cmp x z \<le> 0"
        using trans [of x y z] True Cons.prems(1,2) z by auto
    qed
    then show ?thesis using True Cons.prems by simp
  next
    case False
    then have yx: "cmp y x \<le> 0" using total [of x y] Cons.prems(1,2) by auto
    have "sorted_wrt (\<lambda>a b. cmp a b \<le> 0) (insort_js cmp x ys)"
      using Cons.IH Cons.prems by simp
    moreover have "\<forall>z \<in> set (insort_js cmp x ys). cmp y z \<le> 0"
      using yx Cons.prems(3) by (simp add: set_insort_js)
    ultimately show ?thesis using False by simp
  qed
qed

lemma sorted_sort_js:
  assumes "\<And>a b. a \<in> A \<Longrightarrow> b \<in> A \<Longrightarrow> cmp a b \<le> 0 \<or> cmp b a \<le> 0"
    and "\<And>a b c. a \<in> A \<Longrightarrow> b \<in> A \<Longrightarrow> c \<in> A \<Longrightarrow>
            cmp a b \<le> 0 \<Longrightarrow> cmp b c \<le> 0 \<Longrightarrow> cmp a c \<le> 0"
  shows "set xs \<subseteq> A \<Longrightarrow> sorted_wrt (\<lambda>a b. cmp a b \<le> 0) (sort_js cmp xs)"
proof (induction xs)
  case Nil
  then show ?case by (simp add: sort_js_def)
next
  case (Cons x xs)
  have "sorted_wrt (\<lambda>a b. cmp a b \<le> 0) (insort_js cmp x (sort_js cmp xs))"
  proof (rule sorted_insort_js [where A = A])
    fix a b assume "a \<in> A" "b \<in> A"
    then show "cmp a b \<le> 0 \<or> cmp b a \<le> 0" by (rule assms(1))
  next
    fix a b c assume "a \<in> A" "b \<in> A" "c \<in> A" "cmp a b \<le> 0" "cmp b c \<le> 0"
    then show "cmp a c \<le> 0" by (rule assms(2))
  next
    show "x \<in> A" using Cons.prems by simp
    show "set (sort_js cmp xs) \<subseteq> A" using Cons.prems by (simp add: set_sort_js)
    show "sorted_wrt (\<lambda>a b. cmp a b \<le> 0) (sort_js cmp xs)" using Cons by simp
  qed
  then show ?case by (simp add: sort_js_def)
qed

lemma stable_insort_js:
  assumes "\<And>y. key x = key y \<Longrightarrow> cmp x y \<le> 0"
  shows "filter (\<lambda>l. key l = k) (insort_js cmp x xs)
           = filter (\<lambda>l. key l = k) (x # xs)"
proof (induction xs)
  case Nil
  then show ?case by simp
next
  case (Cons y ys)
  show ?case
  proof (cases "cmp x y \<le> 0")
    case True
    then show ?thesis by simp
  next
    case False
    then have "key x \<noteq> key y" using assms by blast
    then show ?thesis using False Cons by auto
  qed
qed

lemma stable_sort_js:
  assumes "\<And>x y. key x = key y \<Longrightarrow> cmp x y \<le> 0"
  shows "filter (\<lambda>l. key l = k) (sort_js cmp xs) = filter (\<lambda>l. key l = k) xs"
proof (induction xs)
  case Nil
  then show ?case by (simp add: sort_js_def)
next
  case (Cons x xs)
  have "filter (\<lambda>l. key l = k) (sort_js cmp (x # xs))
          = filter (\<lambda>l. key l = k) (x # sort_js cmp xs)"
    using stable_insort_js [of key x cmp k "sort_js cmp xs"] assms
    by (simp add: sort_js_def)
  then show ?case using Cons by simp
qed

subsection \<open>Conversions to Number and the comparators\<close>

text \<open>
  Below \<open>2^53\<close> the conversion is exact and the comparators are the orders of the
  specification. Everywhere \<open>compareLogs\<close> is a consistent comparator, so the sort is
  the stable sort by it.
\<close>

lemma bitLength_le: "n < 2 ^ k \<Longrightarrow> bitLength n \<le> k"
proof (induction k arbitrary: n)
  case 0
  then show ?case by (subst bitLength.simps) simp
next
  case (Suc k)
  show ?case
  proof (cases "n = 0")
    case True
    then show ?thesis by (subst bitLength.simps) simp
  next
    case False
    have "n div 2 < 2 ^ k" using Suc.prems by simp
    then have "bitLength (n div 2) \<le> k" by (rule Suc.IH)
    then show ?thesis using False by (subst bitLength.simps) simp
  qed
qed

lemma Number_exact: "n < 2 ^ 53 \<Longrightarrow> Number n = n"
proof -
  assume n: "n < 2 ^ 53"
  then have "bitLength n - 53 = 0" using bitLength_le [of n 53] by simp
  moreover have "\<not> n \<ge> Infinity"
  proof -
    have "(2::nat) ^ 53 \<le> 2 ^ 1024" by (rule power_increasing) simp_all
    then show ?thesis using n unfolding Infinity_def by linarith
  qed
  ultimately show ?thesis by (simp add: Number_def)
qed

lemma Number_finite: "n < 2 ^ 53 \<Longrightarrow> Number n \<noteq> Infinity"
proof -
  assume n: "n < 2 ^ 53"
  have "(2::nat) ^ 53 \<le> 2 ^ 1024" by (rule power_increasing) simp_all
  then show ?thesis using n unfolding Number_exact [OF n] Infinity_def by linarith
qed

lemma compareLogs_newestFirst:
  assumes "inRange a" "inRange b"
  shows "compareLogs a b \<le> 0 \<longleftrightarrow> newestFirst a b"
proof -
  have "args_timestamp a < 2 ^ 53" "args_timestamp b < 2 ^ 53"
    "logIndex a < 2 ^ 53" "logIndex b < 2 ^ 53"
    using assms by (simp_all add: inRange_def)
  then have "Number (args_timestamp a) = args_timestamp a"
    "Number (args_timestamp b) = args_timestamp b"
    "Number (logIndex a) = logIndex a" "Number (logIndex b) = logIndex b"
    "Number (args_timestamp a) \<noteq> Infinity"
    using Number_finite [of "args_timestamp a"] by (simp_all add: Number_exact)
  then show ?thesis
    unfolding compareLogs_def newestFirst_def Let_def by (simp only:) auto
qed

lemma compareLogs_sortKey: "sortKey a = sortKey b \<Longrightarrow> compareLogs a b \<le> 0"
  by (simp add: compareLogs_def sortKey_def)

lemma compareTimestamp_newerFirst:
  "args_timestamp a < 2 ^ 53 \<Longrightarrow> args_timestamp b < 2 ^ 53 \<Longrightarrow>
   compareTimestamp a b \<le> 0 \<longleftrightarrow> newerFirst a b"
  by (simp add: compareTimestamp_def newerFirst_def Number_exact)

lemma newestFirst_total: "newestFirst a b \<or> newestFirst b a"
  by (auto simp: newestFirst_def)

lemma newestFirst_trans: "newestFirst a b \<Longrightarrow> newestFirst b c \<Longrightarrow> newestFirst a c"
  by (auto simp: newestFirst_def)

lemma newestFirst_newerFirst: "newestFirst a b \<Longrightarrow> newerFirst a b"
  by (auto simp: newestFirst_def newerFirst_def)

lemma sorted_sort_compareLogs:
  assumes "\<forall>l \<in> set xs. inRange l"
  shows "sorted_wrt newestFirst (sort_js compareLogs xs)"
proof -
  have "sorted_wrt (\<lambda>a b. compareLogs a b \<le> 0) (sort_js compareLogs xs)"
  proof (rule sorted_sort_js [where A = "{l. inRange l}"])
    show "set xs \<subseteq> {l. inRange l}" using assms by blast
  next
    fix a b assume "a \<in> {l. inRange l}" "b \<in> {l. inRange l}"
    then show "compareLogs a b \<le> 0 \<or> compareLogs b a \<le> 0"
      using newestFirst_total [of a b] by (simp add: compareLogs_newestFirst)
  next
    fix a b c
    assume "a \<in> {l. inRange l}" "b \<in> {l. inRange l}" "c \<in> {l. inRange l}"
      "compareLogs a b \<le> 0" "compareLogs b c \<le> 0"
    then show "compareLogs a c \<le> 0"
      using newestFirst_trans [of a b c] by (simp add: compareLogs_newestFirst)
  qed
  then show ?thesis
  proof (rule sorted_wrt_mono_rel [rotated])
    fix x y
    assume "x \<in> set (sort_js compareLogs xs)" "y \<in> set (sort_js compareLogs xs)"
      "compareLogs x y \<le> 0"
    then show "newestFirst x y" using assms by (simp add: set_sort_js compareLogs_newestFirst)
  qed
qed

lemma sorted_sort_compareTimestamp:
  assumes "\<forall>l \<in> set xs. args_timestamp l < 2 ^ 53"
  shows "sorted_wrt newerFirst (sort_js compareTimestamp xs)"
proof -
  have "sorted_wrt (\<lambda>a b. compareTimestamp a b \<le> 0) (sort_js compareTimestamp xs)"
  proof (rule sorted_sort_js [where A = "{l. args_timestamp l < 2 ^ 53}"])
    show "set xs \<subseteq> {l. args_timestamp l < 2 ^ 53}" using assms by blast
  next
    fix a b :: LogEntry
    assume "a \<in> {l. args_timestamp l < 2 ^ 53}" "b \<in> {l. args_timestamp l < 2 ^ 53}"
    then show "compareTimestamp a b \<le> 0 \<or> compareTimestamp b a \<le> 0"
      by (auto simp: compareTimestamp_newerFirst newerFirst_def)
  next
    fix a b c :: LogEntry
    assume "a \<in> {l. args_timestamp l < 2 ^ 53}" "b \<in> {l. args_timestamp l < 2 ^ 53}"
      "c \<in> {l. args_timestamp l < 2 ^ 53}"
      "compareTimestamp a b \<le> 0" "compareTimestamp b c \<le> 0"
    then show "compareTimestamp a c \<le> 0"
      by (auto simp: compareTimestamp_newerFirst newerFirst_def)
  qed
  then show ?thesis
  proof (rule sorted_wrt_mono_rel [rotated])
    fix x y
    assume "x \<in> set (sort_js compareTimestamp xs)" "y \<in> set (sort_js compareTimestamp xs)"
      "compareTimestamp x y \<le> 0"
    then show "newerFirst x y"
      using assms by (simp add: set_sort_js compareTimestamp_newerFirst)
  qed
qed

lemma stable_sort_compareLogs:
  "filter (\<lambda>l. sortKey l = k) (sort_js compareLogs xs) = filter (\<lambda>l. sortKey l = k) xs"
  by (rule stable_sort_js) (simp add: compareLogs_sortKey)

lemma stable_sort_compareTimestamp:
  "filter (\<lambda>l. args_timestamp l = k) (sort_js compareTimestamp xs)
     = filter (\<lambda>l. args_timestamp l = k) xs"
  by (rule stable_sort_js) (simp add: compareTimestamp_def)

subsection \<open>Deduplication\<close>

lemma dedupLoop_keepFirst: "dedupLoop xs seen acc = acc @ keepFirst seen xs"
  by (induction xs arbitrary: seen acc) simp_all

lemma keepFirst_signatures:
  "logSignature ` set (keepFirst seen xs) = logSignature ` set xs - seen"
  by (induction xs arbitrary: seen) auto

lemma keepFirst_distinct: "distinct (map logSignature (keepFirst seen xs))"
proof (induction xs arbitrary: seen)
  case Nil
  then show ?case by simp
next
  case (Cons x xs)
  have "logSignature x \<notin> logSignature ` set (keepFirst (insert (logSignature x) seen) xs)"
    by (simp add: keepFirst_signatures)
  then show ?case using Cons by simp
qed

lemma keepFirst_first:
  "l \<in> set (keepFirst seen xs) \<Longrightarrow>
   find (\<lambda>m. logSignature m = logSignature l) xs = Some l"
proof (induction xs arbitrary: seen)
  case Nil
  then show ?case by simp
next
  case (Cons x xs)
  show ?case
  proof (cases "logSignature x \<in> seen")
    case True
    then have l: "l \<in> set (keepFirst seen xs)" using Cons.prems by simp
    then have "logSignature l \<in> logSignature ` set xs - seen"
      using keepFirst_signatures [of seen xs] by blast
    then have "logSignature x \<noteq> logSignature l" using True by auto
    then show ?thesis using Cons.IH [OF l] by simp
  next
    case False
    show ?thesis
    proof (cases "l = x")
      case True
      then show ?thesis by simp
    next
      case ne: False
      then have l: "l \<in> set (keepFirst (insert (logSignature x) seen) xs)"
        using Cons.prems False by simp
      then have "logSignature l \<in> logSignature ` set xs - insert (logSignature x) seen"
        using keepFirst_signatures [of "insert (logSignature x) seen" xs] by blast
      then have "logSignature x \<noteq> logSignature l" by auto
      then show ?thesis using Cons.IH [OF l] by simp
    qed
  qed
qed

lemma set_keepFirst_subset: "set (keepFirst seen xs) \<subseteq> set xs"
  by (induction xs arbitrary: seen) auto

lemma sortAndDedupe_keepFirst:
  "sortAndDedupe finalLogs = keepFirst {} (sort_js compareLogs finalLogs)"
  by (simp add: sortAndDedupe_def dedupLoop_keepFirst)

lemma identity_image:
  assumes "A \<subseteq> B" and "logSignature ` A = logSignature ` B"
  shows "identity ` A = identity ` B"
proof
  show "identity ` A \<subseteq> identity ` B" using assms(1) by blast
  show "identity ` B \<subseteq> identity ` A"
  proof
    fix x assume "x \<in> identity ` B"
    then obtain b where b: "b \<in> B" "x = identity b" by blast
    then have "logSignature b \<in> logSignature ` A" using assms(2) by blast
    then obtain a where a: "a \<in> A" "logSignature a = logSignature b" by auto
    then have "identity a = identity b" by (simp add: logSignature_identity)
    with a(1) b(2) show "x \<in> identity ` A" by (metis imageI)
  qed
qed

lemma sorted_wrt_keepFirst: "sorted_wrt R xs \<Longrightarrow> sorted_wrt R (keepFirst seen xs)"
proof (induction xs arbitrary: seen)
  case Nil
  then show ?case by simp
next
  case (Cons x xs)
  then show ?case using set_keepFirst_subset by fastforce
qed

subsection \<open>Paging\<close>

lemma fetchChunks_eq:
  "fetchChunks g latest start acc tr =
     (acc @ concat (map (\<lambda>(a, b). chunkLogsOf (g a b)) (chunkRanges latest start)),
      tr @ concat (map (\<lambda>(a, b). chunkEvents a b (g a b)) (chunkRanges latest start)))"
proof (induction g latest start acc tr rule: fetchChunks.induct)
  case (1 g latest start acc tr)
  show ?case
  proof (cases "start \<le> latest")
    case False
    then show ?thesis
      by (subst fetchChunks.simps, subst chunkRanges.simps, subst chunkRanges.simps) simp
  next
    case le: True
    show ?thesis
    proof (cases "chunkEnd start latest = latest")
      case True
      then show ?thesis using le
        by (subst fetchChunks.simps, subst chunkRanges.simps, subst chunkRanges.simps) simp
    next
      case False
      have r: "chunkRanges latest start
                 = (start, chunkEnd start latest) # chunkRanges latest (chunkEnd start latest + 1)"
        using le False by (subst chunkRanges.simps) simp
      have "fetchChunks g latest start acc tr =
              fetchChunks g latest (chunkEnd start latest + 1)
                (acc @ chunkLogsOf (g start (chunkEnd start latest)))
                (tr @ chunkEvents start (chunkEnd start latest) (g start (chunkEnd start latest)))"
        using le False by (subst fetchChunks.simps) simp
      then show ?thesis
        using "1.IH" [OF le False] by (simp add: r)
    qed
  qed
qed

lemma queried_chunkEvents:
  "queried (concat (map (\<lambda>(a, b). chunkEvents a b (g a b)) rs)) = rs"
  by (induction rs) (auto simp: queried_def chunkEvents_def split: option.splits)

lemma failed_chunkEvents:
  "failed (concat (map (\<lambda>(a, b). chunkEvents a b (g a b)) rs))
     = filter (\<lambda>(a, b). g a b = None) rs"
  by (induction rs) (auto simp: failed_def chunkEvents_def split: option.splits)

lemma chunkRanges_empty: "\<not> start \<le> latest \<Longrightarrow> chunkRanges latest start = []"
  by (subst chunkRanges.simps) simp

lemma chunkRanges_tile:
  "start \<le> latest \<Longrightarrow>
   concat (map (\<lambda>(a, b). [a..<Suc b]) (chunkRanges latest start)) = [start..<Suc latest]"
proof (induction latest start rule: chunkRanges.induct)
  case (1 latest start)
  show ?case
  proof (cases "chunkEnd start latest = latest")
    case True
    then show ?thesis using "1.prems" by (subst chunkRanges.simps) simp
  next
    case False
    have e: "start \<le> chunkEnd start latest" "chunkEnd start latest < latest"
      using "1.prems" False by (auto simp: chunkEnd_def split: if_splits)
    have "concat (map (\<lambda>(a, b). [a..<Suc b]) (chunkRanges latest (chunkEnd start latest + 1)))
            = [chunkEnd start latest + 1..<Suc latest]"
      using "1.IH" [OF "1.prems" False] e by simp
    moreover have "[start..<Suc (chunkEnd start latest)] @ [chunkEnd start latest + 1..<Suc latest]
            = [start..<Suc latest]"
    proof -
      obtain k where k: "Suc latest = Suc (chunkEnd start latest) + k"
        using e(2) by (metis Suc_le_mono le_Suc_ex less_imp_le_nat)
      show ?thesis
        using upt_add_eq_append [of start "Suc (chunkEnd start latest)" k] e(1) k by simp
    qed
    ultimately show ?thesis
      using "1.prems" False by (subst chunkRanges.simps) simp
  qed
qed

lemma chunkRanges_limit:
  "(a, b) \<in> set (chunkRanges latest start) \<Longrightarrow> a \<le> b \<and> b - a < BLOCK_RANGE_LIMIT"
proof (induction latest start rule: chunkRanges.induct)
  case (1 latest start)
  show ?case
  proof (cases "start \<le> latest")
    case False
    then show ?thesis using "1.prems" by (simp add: chunkRanges_empty)
  next
    case le: True
    have here: "start \<le> chunkEnd start latest
                \<and> chunkEnd start latest - start < BLOCK_RANGE_LIMIT"
      using le by (auto simp: chunkEnd_def BLOCK_RANGE_LIMIT_def)
    show ?thesis
    proof (cases "chunkEnd start latest = latest")
      case True
      have "chunkRanges latest start = [(start, chunkEnd start latest)]"
        using le True by (subst chunkRanges.simps) simp
      then show ?thesis using "1.prems" here by simp
    next
      case False
      have "chunkRanges latest start
              = (start, chunkEnd start latest) # chunkRanges latest (chunkEnd start latest + 1)"
        using le False by (subst chunkRanges.simps) simp
      then show ?thesis using "1.prems" here "1.IH" [OF le False] by auto
    qed
  qed
qed

lemma queried_Nil: "queried [] = []"
  by (simp add: queried_def)

subsection \<open>The handler\<close>

lemma fetch_cases:
  "fetch cache (Some latest) g =
     (case cache of
        None \<Rightarrow> reconcile False latest
                 \<lparr>baseLogs = [], effectiveCachedUpToBlock = 0, cacheStatus = ''MISS_FULL_FETCH''\<rparr> g
      | Some (h, r) \<Rightarrow>
          (case loadRecent r latest
                  (loadHistorical h \<lparr>baseLogs = [], effectiveCachedUpToBlock = 0,
                                     cacheStatus = ''MISS_FULL_FETCH''\<rparr>) of
             Inl p \<Rightarrow> \<lparr>response = Response200 p, rpc = [], kvPut = None\<rparr>
           | Inr st \<Rightarrow> reconcile True latest st g))"
  by (simp add: fetch_def Let_def)

lemma compareLogs_total: "compareLogs a b \<le> 0 \<or> compareLogs b a \<le> 0"
  unfolding compareLogs_def Let_def by auto

lemma compareLogs_trans:
  "compareLogs a b \<le> 0 \<Longrightarrow> compareLogs b c \<le> 0 \<Longrightarrow> compareLogs a c \<le> 0"
  unfolding compareLogs_def Let_def by (auto split: if_splits)

lemma sorted_compareLogs:
  "sorted_wrt (\<lambda>a b. compareLogs a b \<le> 0) (sort_js compareLogs xs)"
proof (rule sorted_sort_js [where A = UNIV])
  fix a b :: LogEntry
  show "compareLogs a b \<le> 0 \<or> compareLogs b a \<le> 0" by (rule compareLogs_total)
next
  fix a b c :: LogEntry
  assume "compareLogs a b \<le> 0" "compareLogs b c \<le> 0"
  then show "compareLogs a c \<le> 0" by (rule compareLogs_trans)
qed simp

lemma sortAndDedupe_sorted:
  assumes "\<forall>l \<in> set (sortAndDedupe xs). inRange l"
  shows "sorted_wrt newestFirst (sortAndDedupe xs)"
proof -
  have "sorted_wrt (\<lambda>a b. compareLogs a b \<le> 0) (sortAndDedupe xs)"
    unfolding sortAndDedupe_keepFirst by (rule sorted_wrt_keepFirst) (rule sorted_compareLogs)
  then show ?thesis
  proof (rule sorted_wrt_mono_rel [rotated])
    fix x y
    assume "x \<in> set (sortAndDedupe xs)" "y \<in> set (sortAndDedupe xs)" "compareLogs x y \<le> 0"
    then show "newestFirst x y" using assms by (simp add: compareLogs_newestFirst)
  qed
qed

lemma mergeAndRespond_eq:
  "mergeAndRespond hasCache latest st q g =
     \<lparr>response = Response200
        \<lparr>logs = sortAndDedupe (baseLogs st @ fetchedLogs g latest q),
         cachedUpToBlock = latest,
         totalLogs = length (sortAndDedupe (baseLogs st @ fetchedLogs g latest q)),
         source = (if q \<le> latest
                   then (if effectiveCachedUpToBlock st > 0 then ''rpc_delta_update''
                         else ''rpc_initial_fetch'')
                   else cacheStatus st)\<rparr>,
      rpc = concat (map (\<lambda>(a, b). chunkEvents a b (g a b)) (chunkRanges latest q)),
      kvPut = (if hasCache
               then Some \<lparr>logs = sortAndDedupe (baseLogs st @ fetchedLogs g latest q),
                          cachedUpToBlock = latest,
                          totalLogs = length (sortAndDedupe (baseLogs st @ fetchedLogs g latest q)),
                          source = (if q \<le> latest
                                    then (if effectiveCachedUpToBlock st > 0
                                          then ''rpc_delta_update'' else ''rpc_initial_fetch'')
                                    else cacheStatus st)\<rparr>
               else None)\<rparr>"
proof -
  let ?new = "fetchedLogs g latest q"
  let ?events = "concat (map (\<lambda>(a, b). chunkEvents a b (g a b)) (chunkRanges latest q))"
  have f: "(if q \<le> latest then fetchChunks g latest q [] [] else ([], [])) = (?new, ?events)"
    by (simp add: fetchChunks_eq chunkRanges_empty fetchedLogs_def)
  have m: "(if q \<le> latest \<and> ?new \<noteq> [] then baseLogs st @ ?new else baseLogs st)
             = baseLogs st @ ?new"
    by (cases "?new = []") (simp_all add: chunkRanges_empty fetchedLogs_def)
  show ?thesis
    unfolding mergeAndRespond_def Let_def f fst_conv snd_conv m by (rule refl)
qed

lemma mergeAndRespond_rpc:
  "rpc (mergeAndRespond hasCache latest st q g)
     = concat (map (\<lambda>(a, b). chunkEvents a b (g a b)) (chunkRanges latest q))"
  by (subst mergeAndRespond_eq) simp

lemma mergeAndRespond_payload:
  "\<exists>p. response (mergeAndRespond hasCache latest st q g) = Response200 p
       \<and> kvPut (mergeAndRespond hasCache latest st q g) = (if hasCache then Some p else None)
       \<and> logs p = sortAndDedupe (baseLogs st @ fetchedLogs g latest q)
       \<and> cachedUpToBlock p = latest
       \<and> totalLogs p = length (logs p)"
  by (subst mergeAndRespond_eq, subst mergeAndRespond_eq) simp

lemma lookback_merge:
  assumes "lookback latest = Some (base, q)" and "\<not> (effectiveCachedUpToBlock st > 0)"
  shows "reconcile hasCache latest st g
           = mergeAndRespond hasCache latest
               (st\<lparr>baseLogs := [], cacheStatus := ''MISS_INITIAL_FETCH''\<rparr>) q g
         \<and> base = []"
  using assms by (auto simp: lookback_def reconcile_def split: if_splits)

lemma lookback_none:
  assumes "lookback latest = None" and "\<not> (effectiveCachedUpToBlock st > 0)"
  shows "reconcile hasCache latest st g = \<lparr>response = Response500, rpc = [], kvPut = None\<rparr>"
  using assms by (auto simp: lookback_def reconcile_def split: if_splits)

lemma load_chosen:
  "loadRecent r latest (loadHistorical h \<lparr>baseLogs = [], effectiveCachedUpToBlock = 0,
                                           cacheStatus = ''MISS_FULL_FETCH''\<rparr>) =
     (case chosenBase h r of
        None \<Rightarrow> Inr \<lparr>baseLogs = [], effectiveCachedUpToBlock = 0,
                      cacheStatus = ''MISS_FULL_FETCH''\<rparr>
      | Some (Historical, l, n) \<Rightarrow>
          Inr \<lparr>baseLogs = l, effectiveCachedUpToBlock = n, cacheStatus = ''HIT_HISTORICAL''\<rparr>
      | Some (Recent, l, n) \<Rightarrow>
          if n \<ge> latest then Inl (case r of KvHit p \<Rightarrow> p)
          else Inr \<lparr>baseLogs = l, effectiveCachedUpToBlock = n, cacheStatus = ''HIT_RECENT''\<rparr>)"
  by (cases h; cases r)
     (auto simp: loadRecent_def loadHistorical_def chosenBase_def split: prod.splits)

lemma chosen_recent:
  "chosenBase h r = Some (Recent, l, n) \<Longrightarrow>
   \<exists>p. r = KvHit p \<and> logs p = l \<and> cachedUpToBlock p = n"
  by (cases h; cases r) (auto simp: chosenBase_def split: if_splits prod.splits)

lemma chosen_historical:
  "chosenBase h r = Some (Historical, l, n) \<Longrightarrow> h = KvHit (l, n)"
  by (cases h; cases r) (auto simp: chosenBase_def split: if_splits prod.splits)

lemma sort_js_sorted:
  "sorted_wrt (\<lambda>a b. cmp a b \<le> 0) xs \<Longrightarrow> sort_js cmp xs = xs"
proof (induction xs)
  case Nil
  then show ?case by (simp add: sort_js_def)
next
  case (Cons x xs)
  have "sort_js cmp (x # xs) = insort_js cmp x (sort_js cmp xs)"
    by (simp add: sort_js_def)
  also have "\<dots> = insort_js cmp x xs" using Cons by simp
  also have "\<dots> = x # xs" using Cons.prems by (cases xs) simp_all
  finally show ?case .
qed

lemma fetchedLogs_answered:
  "fetchedLogs g latest q
     = concat (map (\<lambda>(a, b). the (g a b))
         (filter (\<lambda>(a, b). g a b \<noteq> None) (chunkRanges latest q)))"
proof -
  have "concat (map (\<lambda>(a, b). chunkLogsOf (g a b)) rs)
          = concat (map (\<lambda>(a, b). the (g a b)) (filter (\<lambda>(a, b). g a b \<noteq> None) rs))" for rs
    by (induction rs) (auto simp: chunkLogsOf_def)
  then show ?thesis by (simp add: fetchedLogs_def)
qed

lemma fetch_merge:
  assumes "mergePlan cache latest = Some (base, q)"
  shows "\<exists>st. baseLogs st = base
              \<and> fetch cache (Some latest) g = mergeAndRespond (cache \<noteq> None) latest st q g"
proof (cases cache)
  case None
  let ?st = "\<lparr>baseLogs = [], effectiveCachedUpToBlock = 0, cacheStatus = ''MISS_FULL_FETCH''\<rparr>"
  have "lookback latest = Some (base, q)" using assms None by (simp add: mergePlan_def)
  then have "reconcile False latest ?st g
               = mergeAndRespond False latest
                   (?st\<lparr>baseLogs := [], cacheStatus := ''MISS_INITIAL_FETCH''\<rparr>) q g
             \<and> base = []"
    by (rule lookback_merge) simp
  then show ?thesis using None by (intro exI [of _ "?st\<lparr>baseLogs := [], cacheStatus := ''MISS_INITIAL_FETCH''\<rparr>"]) (simp add: fetch_cases)
next
  case (Some hr)
  obtain h r where hr: "hr = (h, r)" by (cases hr)
  let ?st = "\<lparr>baseLogs = [], effectiveCachedUpToBlock = 0, cacheStatus = ''MISS_FULL_FETCH''\<rparr>"
  have f: "fetch cache (Some latest) g =
             (case loadRecent r latest (loadHistorical h ?st) of
                Inl p \<Rightarrow> \<lparr>response = Response200 p, rpc = [], kvPut = None\<rparr>
              | Inr st \<Rightarrow> reconcile True latest st g)"
    using Some hr by (simp add: fetch_cases)
  have plan: "(case chosenBase h r of
                 Some (t, l, n) \<Rightarrow>
                   if n \<ge> latest \<and> (t = Recent \<or> n > 0) then None
                   else if n > 0 then Some (l, n + 1) else lookback latest
               | None \<Rightarrow> lookback latest) = Some (base, q)"
    using assms Some hr by (simp add: mergePlan_def)
  have initial: "\<exists>st. baseLogs st = base \<and> reconcile True latest st' g
                         = mergeAndRespond True latest st q g"
    if "lookback latest = Some (base, q)" "\<not> effectiveCachedUpToBlock st' > 0" for st'
    using lookback_merge [OF that, of True g]
    by (intro exI [of _ "st'\<lparr>baseLogs := [], cacheStatus := ''MISS_INITIAL_FETCH''\<rparr>"]) simp
  show ?thesis
  proof (cases "chosenBase h r")
    case None
    then have "lookback latest = Some (base, q)" using plan by simp
    then have "\<exists>st. baseLogs st = base \<and> reconcile True latest ?st g
                         = mergeAndRespond True latest st q g"
      by (rule initial) simp
    then show ?thesis using f None Some by (simp add: load_chosen)
  next
    case chosen: (Some tln)
    obtain t l n where tln: "tln = (t, l, n)" by (cases tln)
    show ?thesis
    proof (cases "n > 0")
      case False
      then have n: "n = 0" by simp
      have lb: "lookback latest = Some (base, q)"
        using plan chosen tln n by (simp split: if_splits)
      have late: "\<not> n \<ge> latest \<or> t = Historical"
        using plan chosen tln n by (cases t) (simp_all split: if_splits)
      let ?st' = "\<lparr>baseLogs = l, effectiveCachedUpToBlock = n,
                    cacheStatus = (if t = Recent then ''HIT_RECENT'' else ''HIT_HISTORICAL'')\<rparr>"
      have "loadRecent r latest (loadHistorical h ?st) = Inr ?st'"
        using chosen tln late plan n by (cases t) (simp_all add: load_chosen split: if_splits)
      moreover have "\<exists>st. baseLogs st = base \<and> reconcile True latest ?st' g
                         = mergeAndRespond True latest st q g"
        using lb by (rule initial) (simp add: n)
      ultimately show ?thesis using f Some by simp
    next
      case True
      have late: "\<not> n \<ge> latest" and bq: "base = l" "q = n + 1"
        using plan chosen tln True by (simp_all split: if_splits)
      let ?st' = "\<lparr>baseLogs = l, effectiveCachedUpToBlock = n,
                    cacheStatus = (if t = Recent then ''HIT_RECENT'' else ''HIT_HISTORICAL'')\<rparr>"
      have "loadRecent r latest (loadHistorical h ?st) = Inr ?st'"
        using chosen tln late by (cases t) (simp_all add: load_chosen)
      moreover have "reconcile True latest ?st' g = mergeAndRespond True latest ?st' q g"
        using True late bq by (simp add: reconcile_def)
      ultimately show ?thesis using f Some bq by (intro exI [of _ ?st']) simp
    qed
  qed
qed

lemma fetch_nothing:
  assumes "mergePlan cache latest = None"
  shows "rpc (fetch cache (Some latest) g) = [] \<and> kvPut (fetch cache (Some latest) g) = None"
proof (cases cache)
  case None
  let ?st = "\<lparr>baseLogs = [], effectiveCachedUpToBlock = 0, cacheStatus = ''MISS_FULL_FETCH''\<rparr>"
  have "lookback latest = None" using assms None by (simp add: mergePlan_def)
  then have "reconcile False latest ?st g = \<lparr>response = Response500, rpc = [], kvPut = None\<rparr>"
    by (rule lookback_none) simp
  then show ?thesis using None by (simp add: fetch_cases)
next
  case (Some hr)
  obtain h r where hr: "hr = (h, r)" by (cases hr)
  let ?st = "\<lparr>baseLogs = [], effectiveCachedUpToBlock = 0, cacheStatus = ''MISS_FULL_FETCH''\<rparr>"
  have f: "fetch cache (Some latest) g =
             (case loadRecent r latest (loadHistorical h ?st) of
                Inl p \<Rightarrow> \<lparr>response = Response200 p, rpc = [], kvPut = None\<rparr>
              | Inr st \<Rightarrow> reconcile True latest st g)"
    using Some hr by (simp add: fetch_cases)
  have plan: "(case chosenBase h r of
                 Some (t, l, n) \<Rightarrow>
                   if n \<ge> latest \<and> (t = Recent \<or> n > 0) then None
                   else if n > 0 then Some (l, n + 1) else lookback latest
               | None \<Rightarrow> lookback latest) = None"
    using assms Some hr by (simp add: mergePlan_def)
  show ?thesis
  proof (cases "chosenBase h r")
    case None
    then have "lookback latest = None" using plan by simp
    then have "reconcile True latest ?st g = \<lparr>response = Response500, rpc = [], kvPut = None\<rparr>"
      by (rule lookback_none) simp
    then show ?thesis using f None by (simp add: load_chosen)
  next
    case chosen: (Some tln)
    obtain t l n where tln: "tln = (t, l, n)" by (cases tln)
    show ?thesis
    proof (cases "n \<ge> latest \<and> (t = Recent \<or> n > 0)")
      case True
      show ?thesis
      proof (cases t)
        case Recent
        then show ?thesis using f chosen tln True by (simp add: load_chosen)
      next
        case Historical
        then show ?thesis using f chosen tln True by (simp add: load_chosen reconcile_def)
      qed
    next
      case False
      then have n: "n = 0" and lb: "lookback latest = None"
        using plan chosen tln by (simp_all split: if_splits)
      have late: "\<not> n \<ge> latest \<or> t = Historical"
        using False n by (cases t) simp_all
      let ?st' = "\<lparr>baseLogs = l, effectiveCachedUpToBlock = n,
                    cacheStatus = (if t = Recent then ''HIT_RECENT'' else ''HIT_HISTORICAL'')\<rparr>"
      have "loadRecent r latest (loadHistorical h ?st) = Inr ?st'"
        using chosen tln late False n by (cases t) (simp_all add: load_chosen split: if_splits)
      moreover have "reconcile True latest ?st' g
                       = \<lparr>response = Response500, rpc = [], kvPut = None\<rparr>"
        using lb by (rule lookback_none) (simp add: n)
      ultimately show ?thesis using f by simp
    qed
  qed
qed

lemma fetch_uptodate:
  assumes "storedTiers h r" and "chosenBase h r = Some (t, l, n)" and "n \<ge> latest"
  shows "\<exists>p. fetch (Some (h, r)) (Some latest) g
                = \<lparr>response = Response200 p, rpc = [], kvPut = None\<rparr>
             \<and> logs p = (if t = Recent then l else sort_js compareTimestamp l)
             \<and> cachedUpToBlock p = n"
proof (cases t)
  case Recent
  obtain p where p: "r = KvHit p" "logs p = l" "cachedUpToBlock p = n"
    using chosen_recent assms(2) Recent by blast
  have "fetch (Some (h, r)) (Some latest) g = \<lparr>response = Response200 p, rpc = [], kvPut = None\<rparr>"
    using assms(2,3) Recent p(1) by (simp add: fetch_cases load_chosen)
  then show ?thesis using p Recent by simp
next
  case Historical
  have h: "h = KvHit (l, n)" using chosen_historical assms(2) Historical by blast
  then have n: "n > 0" using assms(1) by (simp add: storedTiers_def)
  have "fetch (Some (h, r)) (Some latest) g
          = \<lparr>response = Response200
                \<lparr>logs = sort_js compareTimestamp l, cachedUpToBlock = n,
                 totalLogs = length l, source = ''HIT_HISTORICAL''\<rparr>,
             rpc = [], kvPut = None\<rparr>"
    using assms(2,3) Historical n by (simp add: fetch_cases load_chosen reconcile_def)
  then show ?thesis using Historical by simp
qed

subsection \<open>What the writers of the cache store\<close>

text \<open>
  The backfill script stores the chain head it read, which is past its start block, as
  the height of the historical document. Every document that the handler stores, its
  timestamps and log indices below \<open>2^53\<close>, has its logs newest first, one per
  identity.
\<close>

lemma populateHistoricalKv_stored:
  "populateHistoricalKv latest g = Some (l, n) \<Longrightarrow>
   n = latest \<and> n > START_BLOCK
   \<and> l = sort_js compareTimestamp (fetchedLogs g latest START_BLOCK)"
  by (auto simp: populateHistoricalKv_def Let_def fetchChunks_eq fetchedLogs_def
           split: if_splits)

lemma fetch_kvPut_stored:
  assumes "kvPut (fetch cache head g) = Some p" and "\<forall>l \<in> set (logs p). inRange l"
  shows "sorted_wrt newestFirst (logs p) \<and> distinct (map identity (logs p))"
proof -
  obtain latest where head: "head = Some latest"
    using assms(1) by (cases head) (simp_all add: fetch_def)
  obtain base q where plan: "mergePlan cache latest = Some (base, q)"
    using assms(1) head fetch_nothing [of cache latest g]
    by (cases "mergePlan cache latest") auto
  obtain st where st: "fetch cache (Some latest) g
                         = mergeAndRespond (cache \<noteq> None) latest st q g"
    using fetch_merge [OF plan] by blast
  obtain p' where p': "kvPut (mergeAndRespond (cache \<noteq> None) latest st q g)
                         = (if cache \<noteq> None then Some p' else None)"
    "logs p' = sortAndDedupe (baseLogs st @ fetchedLogs g latest q)"
    using mergeAndRespond_payload by blast
  have l: "logs p = sortAndDedupe (baseLogs st @ fetchedLogs g latest q)"
    using assms(1) head st p' by (simp split: if_splits)
  have "sorted_wrt newestFirst (logs p)"
    using assms(2) unfolding l by (rule sortAndDedupe_sorted)
  moreover have "distinct (map logSignature (logs p))"
    unfolding l sortAndDedupe_keepFirst by (rule keepFirst_distinct)
  then have "distinct (map identity (logs p))"
    by (simp add: distinct_map inj_on_def logSignature_identity)
  ultimately show ?thesis by simp
qed

lemma writers_storedTiers:
  assumes "populateHistoricalKv latest g = Some d"
    and "kvPut (fetch cache head g') = Some p" and "\<forall>l \<in> set (logs p). inRange l"
  shows "storedTiers (KvHit d) (KvHit p)"
proof -
  obtain l n where d: "d = (l, n)" by (cases d)
  have "n > 0" using populateHistoricalKv_stored assms(1) d by fastforce
  moreover have "sorted_wrt newestFirst (logs p)"
    using fetch_kvPut_stored assms(2,3) by blast
  then have "sorted_wrt newerFirst (logs p)"
    by (rule sorted_wrt_mono_rel [rotated]) (rule newestFirst_newerFirst)
  ultimately show ?thesis using d by (simp add: storedTiers_def)
qed

subsection \<open>The claims on the handler\<close>

lemma showNat_0: "showNat 0 = ''0''"
  using char_of_char [of "CHR ''0''", where ?'a = nat] by (subst showNat.simps) simp

lemma showNat_1: "showNat 1 = ''1''"
  using char_of_char [of "CHR ''1''", where ?'a = nat] by (subst showNat.simps) simp

lemma exLogs_inRange: "inRange exLogA" "inRange exLogB"
  by (simp_all add: inRange_def exLogA_def exLogB_def)

lemma exLogs_sorted: "sort_js compareLogs [exLogA, exLogA, exLogB] = [exLogB, exLogA, exLogA]"
  by (simp add: sort_js_def compareLogs_def exLogA_def exLogB_def Number_exact Number_finite)

lemma exLogs_deduped: "sortAndDedupe [exLogA, exLogA, exLogB] = [exLogB, exLogA]"
  by (simp add: sortAndDedupe_def exLogs_sorted)
     (simp add: logSignature_def exLogA_def exLogB_def showNat_0 showNat_1)

lemma exRanges: "chunkRanges 2500 5 = [(5, 1004), (1005, 2004), (2005, 2500)]"
proof -
  have r3: "chunkRanges 2500 2005 = [(2005, 2500)]"
    by (subst chunkRanges.simps) (simp add: chunkEnd_def BLOCK_RANGE_LIMIT_def)
  have r2: "chunkRanges 2500 1005 = (1005, 2004) # chunkRanges 2500 2005"
    by (subst chunkRanges.simps) (simp add: chunkEnd_def BLOCK_RANGE_LIMIT_def)
  have r1: "chunkRanges 2500 5 = (5, 1004) # chunkRanges 2500 1005"
    by (subst chunkRanges.simps) (simp add: chunkEnd_def BLOCK_RANGE_LIMIT_def)
  show ?thesis by (simp only: r1 r2 r3)
qed

lemma exFetched: "fetchedLogs exGetLogs 2500 5 = [exLogA, exLogB]"
  by (simp add: fetchedLogs_def exRanges exGetLogs_def chunkLogsOf_def)

text \<open>
  Claim C5. When the handler merges (the chosen base does not cover the chain head), the
  \<^verbatim>\<open>logs\<close> of its response are the sorted, deduplicated list of the base tier's logs
  followed by the logs fetched from the chain. That list has no two entries with the same
  \<open>(transactionHash, logIndex)\<close> and has an entry for every such identity of the merged
  input, from whichever tier the copies came. The entry kept is the first with that
  identity in the sorted list, and the sorted list is the stable sort of the input by
  timestamp descending, then block number descending, then log index descending: a
  permutation, in that order, with entries of equal keys in their input order. The
  timestamps and log indices are taken below \<open>2^53\<close>, where the handler's conversions to
  \<^verbatim>\<open>Number\<close> are exact.
\<close>

theorem fetch_merged_unique_newest:
  assumes "mergePlan LOG_CACHE currentRpcLatestBlock = Some (base, queryFromBlock)"
    and "\<forall>l \<in> set (base @ fetchedLogs getLogs currentRpcLatestBlock queryFromBlock). inRange l"
  shows "map_option logs (payloadOf (response
            (fetch LOG_CACHE (Some currentRpcLatestBlock) getLogs)))
           = Some (sortAndDedupe
                (base @ fetchedLogs getLogs currentRpcLatestBlock queryFromBlock))
         \<and> distinct (map identity (sortAndDedupe
                (base @ fetchedLogs getLogs currentRpcLatestBlock queryFromBlock)))
         \<and> identity ` set (sortAndDedupe
                (base @ fetchedLogs getLogs currentRpcLatestBlock queryFromBlock))
             = identity ` set (base @ fetchedLogs getLogs currentRpcLatestBlock queryFromBlock)
         \<and> (\<forall>l \<in> set (sortAndDedupe
                (base @ fetchedLogs getLogs currentRpcLatestBlock queryFromBlock)).
               find (\<lambda>m. identity m = identity l)
                 (sort_js compareLogs
                    (base @ fetchedLogs getLogs currentRpcLatestBlock queryFromBlock))
                 = Some l)
         \<and> mset (sort_js compareLogs
                (base @ fetchedLogs getLogs currentRpcLatestBlock queryFromBlock))
             = mset (base @ fetchedLogs getLogs currentRpcLatestBlock queryFromBlock)
         \<and> sorted_wrt newestFirst (sort_js compareLogs
                (base @ fetchedLogs getLogs currentRpcLatestBlock queryFromBlock))
         \<and> (\<forall>k. filter (\<lambda>l. sortKey l = k) (sort_js compareLogs
                (base @ fetchedLogs getLogs currentRpcLatestBlock queryFromBlock))
               = filter (\<lambda>l. sortKey l = k)
                   (base @ fetchedLogs getLogs currentRpcLatestBlock queryFromBlock))"
proof -
  let ?F = "base @ fetchedLogs getLogs currentRpcLatestBlock queryFromBlock"
  let ?sorted = "sort_js compareLogs ?F"
  obtain st where st: "baseLogs st = base"
    "fetch LOG_CACHE (Some currentRpcLatestBlock) getLogs
       = mergeAndRespond (LOG_CACHE \<noteq> None) currentRpcLatestBlock st queryFromBlock getLogs"
    using fetch_merge [OF assms(1)] by blast
  obtain p where p:
    "response (mergeAndRespond (LOG_CACHE \<noteq> None) currentRpcLatestBlock st queryFromBlock
        getLogs) = Response200 p"
    "logs p = sortAndDedupe
       (baseLogs st @ fetchedLogs getLogs currentRpcLatestBlock queryFromBlock)"
    using mergeAndRespond_payload by blast
  have k1: "map_option logs (payloadOf (response
              (fetch LOG_CACHE (Some currentRpcLatestBlock) getLogs)))
             = Some (sortAndDedupe ?F)"
    using st p by (simp add: payloadOf_def)
  have "distinct (map logSignature (keepFirst {} ?sorted))"
    by (rule keepFirst_distinct)
  then have k2: "distinct (map identity (sortAndDedupe ?F))"
    by (simp add: sortAndDedupe_keepFirst distinct_map inj_on_def logSignature_identity)
  have "logSignature ` set (keepFirst {} ?sorted) = logSignature ` set ?sorted"
    by (simp add: keepFirst_signatures)
  then have "identity ` set (keepFirst {} ?sorted) = identity ` set ?sorted"
    using set_keepFirst_subset by (intro identity_image)
  then have k3: "identity ` set (sortAndDedupe ?F) = identity ` set ?F"
    by (simp only: sortAndDedupe_keepFirst set_sort_js)
  have k4: "\<forall>l \<in> set (sortAndDedupe ?F).
              find (\<lambda>m. identity m = identity l) ?sorted = Some l"
  proof
    fix l assume "l \<in> set (sortAndDedupe ?F)"
    then have "find (\<lambda>m. logSignature m = logSignature l) ?sorted = Some l"
      unfolding sortAndDedupe_keepFirst by (rule keepFirst_first)
    then show "find (\<lambda>m. identity m = identity l) ?sorted = Some l"
      by (simp add: logSignature_identity)
  qed
  have k5: "mset ?sorted = mset ?F" by (rule mset_sort_js)
  have k6: "sorted_wrt newestFirst ?sorted"
    using assms(2) by (rule sorted_sort_compareLogs)
  have k7: "\<forall>k. filter (\<lambda>l. sortKey l = k) ?sorted = filter (\<lambda>l. sortKey l = k) ?F"
    by (intro allI) (rule stable_sort_compareLogs)
  show ?thesis
    by (intro conjI) (rule k1 k2 k3 k4 k5 k6 k7)+
qed

theorem fetch_merged_unique_newest_witness:
  "mergePlan (Some (KvMiss, KvHit exRecent)) 2500 = Some ([exLogA], 5)
   \<and> fetchedLogs exGetLogs 2500 5 = [exLogA, exLogB]
   \<and> inRange exLogA \<and> inRange exLogB
   \<and> map_option logs (payloadOf (response
        (fetch (Some (KvMiss, KvHit exRecent)) (Some 2500) exGetLogs)))
       = Some [exLogB, exLogA]
   \<and> find (\<lambda>m. identity m = identity exLogA) (sort_js compareLogs [exLogA, exLogA, exLogB])
       = Some exLogA"
proof -
  have plan: "mergePlan (Some (KvMiss, KvHit exRecent)) 2500 = Some ([exLogA], 5)"
    by (simp add: mergePlan_def chosenBase_def exRecent_def)
  have range: "\<forall>l \<in> set ([exLogA] @ fetchedLogs exGetLogs 2500 5). inRange l"
    by (simp add: exFetched exLogs_inRange)
  note T = fetch_merged_unique_newest [OF plan range]
  have F: "[exLogA] @ fetchedLogs exGetLogs 2500 5 = [exLogA, exLogA, exLogB]"
    by (simp add: exFetched)
  have "map_option logs (payloadOf (response
          (fetch (Some (KvMiss, KvHit exRecent)) (Some 2500) exGetLogs)))
         = Some (sortAndDedupe ([exLogA] @ fetchedLogs exGetLogs 2500 5))"
    using T by blast
  then have k5: "map_option logs (payloadOf (response
          (fetch (Some (KvMiss, KvHit exRecent)) (Some 2500) exGetLogs)))
         = Some [exLogB, exLogA]"
    by (simp only: F exLogs_deduped)
  have a: "exLogA \<in> set (sortAndDedupe ([exLogA] @ fetchedLogs exGetLogs 2500 5))"
    by (simp only: F exLogs_deduped) simp
  have "find (\<lambda>m. identity m = identity exLogA)
          (sort_js compareLogs ([exLogA] @ fetchedLogs exGetLogs 2500 5)) = Some exLogA"
    using T a by blast
  then have k6: "find (\<lambda>m. identity m = identity exLogA)
          (sort_js compareLogs [exLogA, exLogA, exLogB]) = Some exLogA"
    by (simp only: F)
  show ?thesis
    by (intro conjI) (rule plan exFetched exLogs_inRange k5 k6)+
qed

text \<open>
  Claim C8. When the handler pages (the chosen base does not cover the chain head),
  whatever chunk queries fail: the handler queries every chunk of the block range, in
  order, and writes each failed chunk, and only those, to the error log right after its
  query; the chunks tile the range from the first block to the chain head, each at most
  \<open>BLOCK_RANGE_LIMIT\<close> blocks; the response is a 200 response with the chain head as
  its covered height, and its logs are the sorted, deduplicated merge of the base logs
  with the logs of the chunks that answered.
\<close>

theorem fetch_chunk_failures_skipped:
  assumes "mergePlan LOG_CACHE currentRpcLatestBlock = Some (base, queryFromBlock)"
  shows "rpc (fetch LOG_CACHE (Some currentRpcLatestBlock) getLogs)
           = concat (map (\<lambda>(a, b). chunkEvents a b (getLogs a b))
               (chunkRanges currentRpcLatestBlock queryFromBlock))
         \<and> queried (rpc (fetch LOG_CACHE (Some currentRpcLatestBlock) getLogs))
             = chunkRanges currentRpcLatestBlock queryFromBlock
         \<and> failed (rpc (fetch LOG_CACHE (Some currentRpcLatestBlock) getLogs))
             = filter (\<lambda>(a, b). getLogs a b = None)
                 (chunkRanges currentRpcLatestBlock queryFromBlock)
         \<and> map_option logs (payloadOf (response
              (fetch LOG_CACHE (Some currentRpcLatestBlock) getLogs)))
             = Some (sortAndDedupe
                  (base @ fetchedLogs getLogs currentRpcLatestBlock queryFromBlock))
         \<and> fetchedLogs getLogs currentRpcLatestBlock queryFromBlock
             = concat (map (\<lambda>(a, b). the (getLogs a b))
                 (filter (\<lambda>(a, b). getLogs a b \<noteq> None)
                    (chunkRanges currentRpcLatestBlock queryFromBlock)))
         \<and> map_option cachedUpToBlock (payloadOf (response
              (fetch LOG_CACHE (Some currentRpcLatestBlock) getLogs)))
             = Some currentRpcLatestBlock
         \<and> (queryFromBlock \<le> currentRpcLatestBlock
            \<longrightarrow> concat (map (\<lambda>(a, b). [a..<Suc b])
                  (chunkRanges currentRpcLatestBlock queryFromBlock))
                = [queryFromBlock..<Suc currentRpcLatestBlock])
         \<and> (\<forall>(a, b) \<in> set (chunkRanges currentRpcLatestBlock queryFromBlock).
               a \<le> b \<and> b - a < BLOCK_RANGE_LIMIT)"
proof -
  let ?out = "fetch LOG_CACHE (Some currentRpcLatestBlock) getLogs"
  let ?ranges = "chunkRanges currentRpcLatestBlock queryFromBlock"
  obtain st where st: "baseLogs st = base"
    "?out = mergeAndRespond (LOG_CACHE \<noteq> None) currentRpcLatestBlock st queryFromBlock getLogs"
    using fetch_merge [OF assms] by blast
  obtain p where p:
    "response (mergeAndRespond (LOG_CACHE \<noteq> None) currentRpcLatestBlock st queryFromBlock
        getLogs) = Response200 p"
    "logs p = sortAndDedupe
       (baseLogs st @ fetchedLogs getLogs currentRpcLatestBlock queryFromBlock)"
    "cachedUpToBlock p = currentRpcLatestBlock"
    using mergeAndRespond_payload by blast
  have k1: "rpc ?out = concat (map (\<lambda>(a, b). chunkEvents a b (getLogs a b)) ?ranges)"
    unfolding st(2) by (rule mergeAndRespond_rpc)
  have k2: "queried (rpc ?out) = ?ranges"
    unfolding k1 by (rule queried_chunkEvents)
  have k3: "failed (rpc ?out) = filter (\<lambda>(a, b). getLogs a b = None) ?ranges"
    unfolding k1 by (rule failed_chunkEvents)
  have k4: "map_option logs (payloadOf (response ?out))
              = Some (sortAndDedupe
                   (base @ fetchedLogs getLogs currentRpcLatestBlock queryFromBlock))"
    using st p by (simp add: payloadOf_def)
  have k5: "fetchedLogs getLogs currentRpcLatestBlock queryFromBlock
              = concat (map (\<lambda>(a, b). the (getLogs a b))
                  (filter (\<lambda>(a, b). getLogs a b \<noteq> None) ?ranges))"
    by (rule fetchedLogs_answered)
  have k6: "map_option cachedUpToBlock (payloadOf (response ?out))
              = Some currentRpcLatestBlock"
    using st p by (simp add: payloadOf_def)
  have k7: "queryFromBlock \<le> currentRpcLatestBlock
            \<longrightarrow> concat (map (\<lambda>(a, b). [a..<Suc b]) ?ranges)
                = [queryFromBlock..<Suc currentRpcLatestBlock]"
    using chunkRanges_tile by blast
  have k8: "\<forall>(a, b) \<in> set ?ranges. a \<le> b \<and> b - a < BLOCK_RANGE_LIMIT"
    using chunkRanges_limit by blast
  show ?thesis
    by (intro conjI) (rule k1 k2 k3 k4 k5 k6 k7 k8)+
qed

theorem fetch_chunk_failures_skipped_witness:
  "mergePlan (Some (KvHit ([exLogA], 4), KvMiss)) 2500 = Some ([exLogA], 5)
   \<and> rpc (fetch (Some (KvHit ([exLogA], 4), KvMiss)) (Some 2500) exGetLogs)
       = [GetLogs 5 1004, ChunkError 5 1004, GetLogs 1005 2004, GetLogs 2005 2500]
   \<and> queried (rpc (fetch (Some (KvHit ([exLogA], 4), KvMiss)) (Some 2500) exGetLogs))
       = [(5, 1004), (1005, 2004), (2005, 2500)]
   \<and> failed (rpc (fetch (Some (KvHit ([exLogA], 4), KvMiss)) (Some 2500) exGetLogs))
       = [(5, 1004)]
   \<and> map_option logs (payloadOf (response
        (fetch (Some (KvHit ([exLogA], 4), KvMiss)) (Some 2500) exGetLogs)))
       = Some [exLogB, exLogA]
   \<and> map_option cachedUpToBlock (payloadOf (response
        (fetch (Some (KvHit ([exLogA], 4), KvMiss)) (Some 2500) exGetLogs)))
       = Some 2500
   \<and> concat (map (\<lambda>(a, b). [a..<Suc b]) (chunkRanges 2500 5)) = [5..<Suc 2500]"
proof -
  have plan: "mergePlan (Some (KvHit ([exLogA], 4), KvMiss)) 2500 = Some ([exLogA], 5)"
    by (simp add: mergePlan_def chosenBase_def)
  note T = fetch_chunk_failures_skipped [OF plan, of exGetLogs]
  have "rpc (fetch (Some (KvHit ([exLogA], 4), KvMiss)) (Some 2500) exGetLogs)
          = concat (map (\<lambda>(a, b). chunkEvents a b (exGetLogs a b)) (chunkRanges 2500 5))"
    using T by blast
  then have k1: "rpc (fetch (Some (KvHit ([exLogA], 4), KvMiss)) (Some 2500) exGetLogs)
       = [GetLogs 5 1004, ChunkError 5 1004, GetLogs 1005 2004, GetLogs 2005 2500]"
    by (simp add: exRanges exGetLogs_def chunkEvents_def)
  have "queried (rpc (fetch (Some (KvHit ([exLogA], 4), KvMiss)) (Some 2500) exGetLogs))
          = chunkRanges 2500 5"
    using T by blast
  then have k2: "queried (rpc (fetch (Some (KvHit ([exLogA], 4), KvMiss)) (Some 2500) exGetLogs))
       = [(5, 1004), (1005, 2004), (2005, 2500)]"
    by (simp only: exRanges)
  have "failed (rpc (fetch (Some (KvHit ([exLogA], 4), KvMiss)) (Some 2500) exGetLogs))
          = filter (\<lambda>(a, b). exGetLogs a b = None) (chunkRanges 2500 5)"
    using T by blast
  then have k3: "failed (rpc (fetch (Some (KvHit ([exLogA], 4), KvMiss)) (Some 2500) exGetLogs))
       = [(5, 1004)]"
    by (simp add: exRanges exGetLogs_def)
  have "map_option logs (payloadOf (response
          (fetch (Some (KvHit ([exLogA], 4), KvMiss)) (Some 2500) exGetLogs)))
         = Some (sortAndDedupe ([exLogA] @ fetchedLogs exGetLogs 2500 5))"
    using T by blast
  then have k4: "map_option logs (payloadOf (response
          (fetch (Some (KvHit ([exLogA], 4), KvMiss)) (Some 2500) exGetLogs)))
         = Some [exLogB, exLogA]"
    by (simp add: exFetched exLogs_deduped)
  have k5: "map_option cachedUpToBlock (payloadOf (response
        (fetch (Some (KvHit ([exLogA], 4), KvMiss)) (Some 2500) exGetLogs))) = Some 2500"
    using T by blast
  have le: "(5 :: nat) \<le> 2500" by simp
  have k6: "concat (map (\<lambda>(a, b). [a..<Suc b]) (chunkRanges 2500 5)) = [5..<Suc 2500]"
    using T le by blast
  show ?thesis
    by (intro conjI) (rule plan k1 k2 k3 k4 k5 k6)+
qed

text \<open>
  Claim C7. The two cache documents are taken as their writers leave them: the
  historical one with a positive height, which is what the backfill script stores, and
  the recent one with its logs in timestamp order, newest first, which is how the
  handler stores every answer. When the chosen base tier (the historical tier, or the
  recent tier when its height is not below the historical one) covers the chain head,
  the handler issues no \<^verbatim>\<open>getLogs\<close> query, writes nothing to the cache and answers
  with the base's height unchanged and the base's logs sorted by timestamp, newest
  first: the same entries, in a stable sort. The timestamps are taken below \<open>2^53\<close>,
  where the handler's conversion to \<^verbatim>\<open>Number\<close> is exact.
\<close>

theorem fetch_uptodate_no_rpc:
  assumes "storedTiers historicalData recentCachedResult"
    and "chosenBase historicalData recentCachedResult = Some (t, l, h)"
    and "h \<ge> currentRpcLatestBlock"
    and "\<forall>x \<in> set l. args_timestamp x < 2 ^ 53"
  shows "rpc (fetch (Some (historicalData, recentCachedResult))
                (Some currentRpcLatestBlock) getLogs) = []
         \<and> kvPut (fetch (Some (historicalData, recentCachedResult))
                (Some currentRpcLatestBlock) getLogs) = None
         \<and> map_option cachedUpToBlock (payloadOf (response
              (fetch (Some (historicalData, recentCachedResult))
                 (Some currentRpcLatestBlock) getLogs))) = Some h
         \<and> map_option logs (payloadOf (response
              (fetch (Some (historicalData, recentCachedResult))
                 (Some currentRpcLatestBlock) getLogs)))
             = Some (sort_js compareTimestamp l)
         \<and> mset (sort_js compareTimestamp l) = mset l
         \<and> sorted_wrt newerFirst (sort_js compareTimestamp l)
         \<and> (\<forall>k. filter (\<lambda>x. args_timestamp x = k) (sort_js compareTimestamp l)
                   = filter (\<lambda>x. args_timestamp x = k) l)"
proof -
  let ?out = "fetch (Some (historicalData, recentCachedResult)) (Some currentRpcLatestBlock)
                getLogs"
  obtain p where p: "?out = \<lparr>response = Response200 p, rpc = [], kvPut = None\<rparr>"
    "logs p = (if t = Recent then l else sort_js compareTimestamp l)"
    "cachedUpToBlock p = h"
    using fetch_uptodate [OF assms(1,2,3)] by blast
  have stored: "sort_js compareTimestamp l = l" if recent: "t = Recent"
  proof -
    obtain r where r: "recentCachedResult = KvHit r" "logs r = l"
      using chosen_recent assms(2) recent by blast
    then have "sorted_wrt newerFirst l" using assms(1) by (simp add: storedTiers_def)
    then have "sorted_wrt (\<lambda>a b. compareTimestamp a b \<le> 0) l"
    proof (rule sorted_wrt_mono_rel [rotated])
      fix x y assume "x \<in> set l" "y \<in> set l" "newerFirst x y"
      then show "compareTimestamp x y \<le> 0"
        using assms(4) by (simp add: compareTimestamp_newerFirst)
    qed
    then show ?thesis by (rule sort_js_sorted)
  qed
  have k1: "rpc ?out = []" and k2: "kvPut ?out = None"
    and k3: "map_option cachedUpToBlock (payloadOf (response ?out)) = Some h"
    using p by (simp_all add: payloadOf_def)
  have k4: "map_option logs (payloadOf (response ?out)) = Some (sort_js compareTimestamp l)"
    using p stored by (cases "t = Recent") (simp_all add: payloadOf_def)
  have k5: "mset (sort_js compareTimestamp l) = mset l" by (rule mset_sort_js)
  have k6: "sorted_wrt newerFirst (sort_js compareTimestamp l)"
    using assms(4) by (rule sorted_sort_compareTimestamp)
  have k7: "\<forall>k. filter (\<lambda>x. args_timestamp x = k) (sort_js compareTimestamp l)
                   = filter (\<lambda>x. args_timestamp x = k) l"
    by (intro allI) (rule stable_sort_compareTimestamp)
  show ?thesis
    by (intro conjI) (rule k1 k2 k3 k4 k5 k6 k7)+
qed

theorem fetch_uptodate_no_rpc_witness:
  "storedTiers (KvHit ([exLogA, exLogB], 9)) KvMiss
   \<and> chosenBase (KvHit ([exLogA, exLogB], 9)) KvMiss = Some (Historical, [exLogA, exLogB], 9)
   \<and> args_timestamp exLogA < 2 ^ 53 \<and> args_timestamp exLogB < 2 ^ 53
   \<and> rpc (fetch (Some (KvHit ([exLogA, exLogB], 9), KvMiss)) (Some 9) exGetLogs) = []
   \<and> map_option cachedUpToBlock (payloadOf (response
        (fetch (Some (KvHit ([exLogA, exLogB], 9), KvMiss)) (Some 9) exGetLogs))) = Some 9
   \<and> map_option logs (payloadOf (response
        (fetch (Some (KvHit ([exLogA, exLogB], 9), KvMiss)) (Some 9) exGetLogs)))
       = Some [exLogB, exLogA]"
proof -
  have s: "storedTiers (KvHit ([exLogA, exLogB], 9)) KvMiss"
    by (simp add: storedTiers_def)
  have c: "chosenBase (KvHit ([exLogA, exLogB], 9)) KvMiss = Some (Historical, [exLogA, exLogB], 9)"
    by (simp add: chosenBase_def)
  have le: "(9 :: nat) \<ge> 9" by simp
  have ta: "args_timestamp exLogA < 2 ^ 53" and tb: "args_timestamp exLogB < 2 ^ 53"
    by (simp_all add: exLogA_def exLogB_def)
  have range: "\<forall>x \<in> set [exLogA, exLogB]. args_timestamp x < 2 ^ 53"
    using ta tb by simp
  note T = fetch_uptodate_no_rpc [OF s c le range, of exGetLogs]
  have e: "sort_js compareTimestamp [exLogA, exLogB] = [exLogB, exLogA]"
    by (simp add: sort_js_def compareTimestamp_def exLogA_def exLogB_def Number_exact)
  have k2: "rpc (fetch (Some (KvHit ([exLogA, exLogB], 9), KvMiss)) (Some 9) exGetLogs) = []"
    using T by blast
  have k3: "map_option cachedUpToBlock (payloadOf (response
        (fetch (Some (KvHit ([exLogA, exLogB], 9), KvMiss)) (Some 9) exGetLogs))) = Some 9"
    using T by blast
  have "map_option logs (payloadOf (response
        (fetch (Some (KvHit ([exLogA, exLogB], 9), KvMiss)) (Some 9) exGetLogs)))
       = Some (sort_js compareTimestamp [exLogA, exLogB])"
    using T by blast
  then have k4: "map_option logs (payloadOf (response
        (fetch (Some (KvHit ([exLogA, exLogB], 9), KvMiss)) (Some 9) exGetLogs)))
       = Some [exLogB, exLogA]"
    by (simp only: e)
  show ?thesis
    by (intro conjI) (rule s c ta tb k2 k3 k4)+
qed

end
